theory Spec2Isabelle
  imports Complex_Main "HOL-Library.Sublist" "HOL-Library.AList"
begin

section \<open>The notebook's functions\<close>

subsection \<open>Suits, collapsing and the ordered predicate\<close>

text \<open>
  \<^verbatim>\<open>suits = 'rbRB'\<close>.  A hand is a Python string; it is modelled as a \<open>string\<close>.
\<close>

definition suits :: string where
  "suits = ''rbRB''"

text \<open>
  \<^verbatim>\<open>''.join(hand[i] for i in range(len(hand)) if i == 0 or hand[i] != hand[i-1])\<close>.
  For \<open>i = 0\<close> the right disjunct is not evaluated; for \<open>i > 0\<close> the index \<open>i - 1\<close>
  is in range.
\<close>

definition collapse :: "'a list \<Rightarrow> 'a list" where
  "collapse hand =
     [hand ! i. i \<leftarrow> [0..<length hand], i = 0 \<or> hand ! i \<noteq> hand ! (i - 1)]"

text \<open>
  \<^verbatim>\<open>str.casefold\<close> on ASCII text: the letters \<open>A\<close> to \<open>Z\<close> become lower case, every
  other character is kept.
\<close>

definition casefold :: "string \<Rightarrow> string" where
  "casefold s =
     map (\<lambda>c. let n = (of_char c :: nat) in
                if 65 \<le> n \<and> n \<le> 90 then char_of (n + 32) else c) s"

definition once_each :: "'a list \<Rightarrow> bool" where
  "once_each seq = (length seq = card (set seq))"

definition colors :: "string \<Rightarrow> char set" where
  "colors seq = set (casefold seq)"

text \<open>\<^verbatim>\<open>pair in seq\<close> on strings is the substring test.\<close>

definition adjacent_colors :: "string \<Rightarrow> bool" where
  "adjacent_colors seq =
     list_ex (\<lambda>pair. sublist pair seq) [''rR'', ''Rr'', ''Bb'', ''bB'']"

definition ordered :: "string \<Rightarrow> bool" where
  "ordered hand =
     (let seq = collapse hand in
      once_each seq \<and> (card (colors seq) = 1 \<or> \<not> adjacent_colors seq))"

subsection \<open>Moves\<close>

text \<open>The slice \<^verbatim>\<open>seq[i:j]\<close> with \<open>0 \<le> i \<le> j\<close> is \<open>take (j - i) (drop i seq)\<close>.\<close>

definition splits :: "'a list \<Rightarrow> ('a list \<times> 'a list \<times> 'a list) list" where
  "splits seq =
     [(take i seq, take (j - i) (drop i seq), drop j seq).
        i \<leftarrow> [0..<length seq], j \<leftarrow> [i + 1..<length seq + 1]]"

definition inserts :: "'a list \<Rightarrow> 'a list \<Rightarrow> 'a list list" where
  "inserts block others =
     [take i others @ block @ drop i others. i \<leftarrow> [0..<length others + 1]]"

definition moves :: "'a list \<Rightarrow> 'a list set" where
  "moves seq =
     set [collapse s. (L, block, R) \<leftarrow> splits seq, s \<leftarrow> inserts block (L @ R)]"

subsection \<open>Orderable sequences\<close>

text \<open>The first definition of \<^verbatim>\<open>orderable\<close> in the notebook, without the length guard.\<close>

definition orderable_unpruned :: "string \<Rightarrow> bool" where
  "orderable_unpruned seq = (\<exists>m\<in>moves seq. ordered m)"

text \<open>The redefinition, which rejects sequences longer than 7 before looking at moves.\<close>

definition orderable :: "string \<Rightarrow> bool" where
  "orderable seq = (length seq \<le> 7 \<and> (\<exists>m\<in>moves seq. ordered m))"

subsection \<open>Deal distributions\<close>

text \<open>
  Probabilities are \<^verbatim>\<open>Fraction\<close>s, modelled as \<open>rat\<close>.  The exception that the
  arithmetic of the code can raise is the \<^verbatim>\<open>ZeroDivisionError\<close> of \<^verbatim>\<open>Fraction / 0\<close>.
  The \<^verbatim>\<open>RecursionError\<close> with which the interpreter ends a recursion that is too deep
  is not an exception of the code and is not a value of this type.
\<close>

datatype error = ZeroDivisionError

definition frac_div :: "rat \<Rightarrow> int \<Rightarrow> error + rat" where
  "frac_div a b = (if b = 0 then Inl ZeroDivisionError else Inr (a / of_int b))"

text \<open>
  A dict is an association list in insertion order.  Storing under a key that is already
  present replaces the value in place, storing under a new key appends.
\<close>

type_synonym dist = "(string \<times> rat) list"

definition dict_of :: "('k \<times> 'v) list \<Rightarrow> ('k \<times> 'v) list" where
  "dict_of kvs = fold (\<lambda>(k, v) d. AList.update k v d) kvs []"

text \<open>
  A dict comprehension computes its items one after the other; the first one that raises
  ends the comprehension with that exception.
\<close>

primrec sequence_err :: "(error + 'a) list \<Rightarrow> error + 'a list" where
  "sequence_err [] = Inr []"
| "sequence_err (x # xs) =
     (case x of
        Inl e \<Rightarrow> Inl e
      | Inr v \<Rightarrow> (case sequence_err xs of Inl e \<Rightarrow> Inl e | Inr vs \<Rightarrow> Inr (v # vs)))"

definition dict_comp :: "(error + ('k \<times> 'v)) list \<Rightarrow> error + ('k \<times> 'v) list" where
  "dict_comp items = (case sequence_err items of Inl e \<Rightarrow> Inl e | Inr kvs \<Rightarrow> Inr (dict_of kvs))"

text \<open>
  The item \<^verbatim>\<open>hand + suit: p * (13 - hand.count(suit)) / (52 - len(hand))\<close>.
\<close>

definition item :: "string \<Rightarrow> rat \<Rightarrow> char \<Rightarrow> error + (string \<times> rat)" where
  "item hand p suit =
     (case frac_div (p * of_int (13 - int (count_list hand suit))) (52 - int (length hand)) of
        Inl e \<Rightarrow> Inl e
      | Inr v \<Rightarrow> Inr (hand @ [suit], v))"

text \<open>
  \<^verbatim>\<open>deals\<close> recurses on \<open>N - 1\<close> until \<open>N = 0\<close>, \<open>N\<close> levels deep before the first
  division; for a negative \<open>N\<close> the recursion never reaches the base case.  The result
  \<open>None\<close> stands for a call that returns neither a value nor an exception of the code.
  The definition is the code for as long as the interpreter allows the recursion: the
  interpreter stops a recursion deeper than its limit (a negative \<open>N\<close>, or an \<open>N\<close> beyond
  the limit) with \<^verbatim>\<open>RecursionError\<close>, which is outside this model.  Everything proved below
  is about \<open>0 \<le> N \<le> 52\<close>, a recursion of at most 53 levels.
  The first definition of the notebook keeps every hand:
\<close>

partial_function (option) deals_unpruned :: "int \<Rightarrow> (error + dist) option" where
  "deals_unpruned N =
     (if N = 0 then Some (Inr [([], 1)])
      else Option.bind (deals_unpruned (N - 1)) (\<lambda>r. Some
        (case r of
           Inl e \<Rightarrow> Inl e
         | Inr d \<Rightarrow> dict_comp [item hand p suit. (hand, p) \<leftarrow> d, suit \<leftarrow> suits])))"

text \<open>The redefinition keeps only the hands whose collapsed sequence is orderable:\<close>

partial_function (option) deals :: "int \<Rightarrow> (error + dist) option" where
  "deals N =
     (if N = 0 then Some (Inr [([], 1)])
      else Option.bind (deals (N - 1)) (\<lambda>r. Some
        (case r of
           Inl e \<Rightarrow> Inl e
         | Inr d \<Rightarrow> dict_comp [item hand p suit. (hand, p) \<leftarrow> d, suit \<leftarrow> suits,
                               orderable (collapse (hand @ [suit]))])))"

text \<open>
  The first \<^verbatim>\<open>orderable_probability\<close> filters the full distribution at summation time,
  with the first \<^verbatim>\<open>orderable\<close>; the redefinition adds up the pruned distribution.
\<close>

definition orderable_probability_unpruned :: "int \<Rightarrow> (error + rat) option" where
  "orderable_probability_unpruned N =
     map_option (map_sum id (\<lambda>d. sum_list [p. (hand, p) \<leftarrow> d, orderable_unpruned (collapse hand)]))
       (deals_unpruned N)"

definition orderable_probability :: "int \<Rightarrow> (error + rat) option" where
  "orderable_probability N = map_option (map_sum id (\<lambda>d. sum_list (map snd d))) (deals N)"

section \<open>Auxiliary definitions\<close>

subsection \<open>The distributions as explicit lists\<close>

definition keep_orderable :: "string \<Rightarrow> bool" where
  "keep_orderable hand = orderable (collapse hand)"

definition step :: "(string \<Rightarrow> bool) \<Rightarrow> dist \<Rightarrow> error + dist" where
  "step keep d = dict_comp [item hand p suit. (hand, p) \<leftarrow> d, suit \<leftarrow> suits, keep (hand @ [suit])]"

primrec run :: "(string \<Rightarrow> bool) \<Rightarrow> nat \<Rightarrow> error + dist" where
  "run keep 0 = Inr [([], 1)]"
| "run keep (Suc n) = (case run keep n of Inl e \<Rightarrow> Inl e | Inr d \<Rightarrow> step keep d)"

definition extend :: "(string \<Rightarrow> bool) \<Rightarrow> string list \<Rightarrow> string list" where
  "extend keep hs = [h @ [s]. h \<leftarrow> hs, s \<leftarrow> suits, keep (h @ [s])]"

primrec hands :: "(string \<Rightarrow> bool) \<Rightarrow> nat \<Rightarrow> string list" where
  "hands keep 0 = [[]]"
| "hands keep (Suc n) = extend keep (hands keep n)"

text \<open>The numerator of a hand's probability, by recursion on the reversed hand.\<close>

fun weight_rev :: "string \<Rightarrow> int" where
  "weight_rev [] = 1"
| "weight_rev (s # r) = weight_rev r * (13 - int (count_list r s))"

definition weight :: "string \<Rightarrow> int" where
  "weight h = weight_rev (rev h)"

primrec deck_prod :: "nat \<Rightarrow> int" where
  "deck_prod 0 = 1"
| "deck_prod (Suc n) = deck_prod n * (52 - int n)"

definition prob :: "string \<Rightarrow> rat" where
  "prob h = of_int (weight h) / of_int (deck_prod (length h))"

subsection \<open>A faster test for orderable sequences\<close>

text \<open>The number of runs of a sequence, that is, the length of its collapsed form.\<close>

fun runs :: "'a list \<Rightarrow> nat" where
  "runs [] = 0"
| "runs [x] = Suc 0"
| "runs (x # y # xs) = (if x = y then runs (y # xs) else Suc (runs (y # xs)))"

fun mem :: "'a \<Rightarrow> 'a list \<Rightarrow> bool" where
  "mem x [] = False"
| "mem x (y # ys) = (if x = y then True else mem x ys)"

text \<open>The number of distinct symbols of a sequence.\<close>

fun nsyms :: "'a list \<Rightarrow> nat" where
  "nsyms [] = 0"
| "nsyms (x # xs) = (if mem x xs then nsyms xs else Suc (nsyms xs))"

definition same_color :: "char \<Rightarrow> char \<Rightarrow> bool" where
  "same_color x y =
     (if x = CHR ''r'' \<or> x = CHR ''R'' then y = CHR ''r'' \<or> y = CHR ''R''
      else y = CHR ''b'' \<or> y = CHR ''B'')"

fun one_color :: "char \<Rightarrow> string \<Rightarrow> bool" where
  "one_color c [] = True"
| "one_color c (x # xs) = (if same_color c x then one_color c xs else False)"

fun adjacent_fast :: "string \<Rightarrow> bool" where
  "adjacent_fast [] = False"
| "adjacent_fast [x] = False"
| "adjacent_fast (x # y # xs) =
     (if x = y then adjacent_fast (y # xs)
      else if same_color x y then True else adjacent_fast (y # xs))"

fun color_ok :: "string \<Rightarrow> bool" where
  "color_ok [] = True"
| "color_ok (c # cs) = (if one_color c cs then True else \<not> adjacent_fast (c # cs))"

text \<open>
  A rearrangement \<open>x\<close> of a sequence with \<open>d\<close> distinct symbols is ordered iff it has
  exactly \<open>d\<close> runs and passes the colour test.
\<close>

definition quick :: "nat \<Rightarrow> string \<Rightarrow> bool" where
  "quick d x = (if runs x = d then color_ok x else False)"

fun any_insert :: "nat \<Rightarrow> string \<Rightarrow> string \<Rightarrow> string \<Rightarrow> bool" where
  "any_insert d b u [] = quick d (u @ b)"
| "any_insert d b u (y # v) =
     (if quick d (u @ b @ y # v) then True else any_insert d b (u @ [y]) v)"

text \<open>
  Inserting a block removes at most two runs, so a split whose parts have more than
  \<open>d + 2\<close> runs cannot lead to an ordered sequence.
\<close>

definition try_block :: "nat \<Rightarrow> string \<Rightarrow> string \<Rightarrow> string \<Rightarrow> bool" where
  "try_block d L b R =
     (if runs (L @ R) + runs b \<le> Suc (Suc d) then any_insert d b [] (L @ R) else False)"

fun any_block :: "nat \<Rightarrow> string \<Rightarrow> string \<Rightarrow> string \<Rightarrow> bool" where
  "any_block d L b [] = try_block d L b []"
| "any_block d L b (y # R) =
     (if try_block d L b (y # R) then True else any_block d L (b @ [y]) R)"

fun any_split :: "nat \<Rightarrow> string \<Rightarrow> string \<Rightarrow> bool" where
  "any_split d L [] = False"
| "any_split d L (x # xs) = (if any_block d L [x] xs then True else any_split d (L @ [x]) xs)"

definition orderable_fast :: "string \<Rightarrow> bool" where
  "orderable_fast q = any_split (nsyms q) [] q"

subsection \<open>The tree of orderable sequences\<close>

text \<open>
  A node stands for a collapsed sequence; its four subtrees stand for the sequence
  followed by \<open>r\<close>, \<open>b\<close>, \<open>R\<close> and \<open>B\<close>.  \<open>Off\<close> marks a sequence that is not orderable.
\<close>

datatype ptree = Off | On ptree ptree ptree ptree

abbreviation End :: ptree where
  "End \<equiv> On Off Off Off Off"

fun present :: "ptree \<Rightarrow> bool" where
  "present Off = False"
| "present (On tr tb tR tB) = True"

fun child :: "ptree \<Rightarrow> char \<Rightarrow> ptree" where
  "child Off c = Off"
| "child (On tr tb tR tB) c =
     (if c = CHR ''r'' then tr else if c = CHR ''b'' then tb
      else if c = CHR ''R'' then tR else if c = CHR ''B'' then tB else Off)"

definition T_rb :: ptree where
  "T_rb = On (On Off (On Off Off (On Off Off Off (End)) Off) (On Off Off Off (End)) (On Off Off (On Off (End) Off Off) Off)) Off (On (On Off (On Off Off (On Off Off Off (End)) (End)) (On Off Off Off (End)) (End)) (On Off Off (On Off Off Off (End)) (End)) Off (On (On Off (On Off Off Off (End)) (End) (End)) (On Off Off (On Off Off Off (End)) (End)) (On Off Off Off (End)) Off)) (On (On Off (On Off Off (End) Off) (End) Off) (On Off Off (On Off Off Off (End)) Off) (On Off (End) Off (End)) Off)"

definition T_rR :: ptree where
  "T_rR = On (On Off (On Off Off (On Off Off Off (End)) (End)) (End) (On Off (End) (On Off (End) Off Off) Off)) (On (On Off Off Off (On Off (End) (On Off (End) Off Off) Off)) Off (On Off Off Off (End)) (On Off (End) (On Off (End) Off Off) Off)) Off (On (On Off (On Off Off (On Off Off Off (End)) (End)) Off Off) (On Off Off (On Off Off Off (End)) (End)) (On Off (End) Off Off) Off)"

definition T_rB :: ptree where
  "T_rB = On (On Off (On Off Off (On Off Off Off (End)) Off) (On Off (End) Off Off) (On Off Off (On Off (End) Off Off) Off)) (On (On Off Off (End) (On Off Off (End) Off)) Off (On Off (End) Off (End)) (On Off Off (On Off (End) Off Off) Off)) (On (On Off (End) (On Off (End) Off Off) (On Off (End) (On Off (End) Off Off) Off)) (On (On Off (End) (End) (On Off (End) Off Off)) Off (On Off (End) Off Off) (On Off (End) (On Off (End) Off Off) Off)) Off (On Off (End) (On Off (End) Off Off) Off)) Off"

definition T_br :: ptree where
  "T_br = On Off (On (On Off Off Off (On Off Off (End) Off)) Off (On Off Off Off (On (End) Off Off Off)) (On Off Off (End) Off)) (On (On Off Off Off (On Off Off (End) Off)) (On (On Off Off Off (End)) Off Off (End)) Off (On (End) Off (End) Off)) (On (On Off Off (End) (On Off Off (End) Off)) (On (On Off Off (End) (On Off Off (End) Off)) Off (End) (On Off Off (End) Off)) (On (On Off Off (End) (On Off Off (End) Off)) (On (On Off Off (End) Off) Off (End) (End)) Off (On Off Off (End) Off)) Off)"

definition T_bR :: ptree where
  "T_bR = On (On Off (On Off Off (On Off Off Off (End)) (End)) (On Off Off Off (On (End) Off Off Off)) (On (End) Off (End) Off)) (On (On Off Off Off (On Off Off (End) Off)) Off (On Off Off Off (On (End) Off Off Off)) (On (End) Off Off Off)) Off (On (On Off (On (End) Off (On (End) Off Off Off) (End)) (On (End) Off Off (On (End) Off Off Off)) (On (End) Off Off Off)) (On (End) Off (On (End) Off Off (On (End) Off Off Off)) (On (End) Off Off Off)) (On (End) Off Off (On (End) Off Off Off)) Off)"

definition T_bB :: ptree where
  "T_bB = On (On Off (On Off Off (On (End) Off Off (On (End) Off Off Off)) Off) (On (End) Off Off (On (End) Off Off Off)) (On Off Off (End) Off)) (On (On Off Off (End) (On Off Off (End) Off)) Off (On (End) Off Off (On (End) Off Off Off)) (End)) (On (On Off Off (End) (On Off Off (End) Off)) (On (On Off Off (End) (On Off Off (End) Off)) Off Off Off) Off (On (End) Off Off Off)) Off"

definition T_Rr :: ptree where
  "T_Rr = On Off (On (On Off Off Off (End)) Off (On Off Off Off (On (On Off (End) Off Off) (End) Off Off)) (On (On Off (End) Off Off) (End) Off Off)) (On (End) (On (On Off Off Off (End)) Off Off (End)) Off (On (On Off (End) Off Off) (End) Off Off)) (On (On Off (End) Off Off) (On (On Off Off Off (End)) Off Off (End)) (On Off (On (On Off Off Off (End)) Off Off (End)) Off Off) Off)"

definition T_Rb :: ptree where
  "T_Rb = On (On Off (On (On Off Off Off (End)) Off Off (End)) (On (On Off Off Off (End)) (On (On Off Off Off (End)) Off Off (End)) Off (End)) (On (On Off Off Off (End)) (On (On Off Off Off (End)) Off Off (End)) (On (End) (On Off Off Off (End)) Off (End)) Off)) Off (On (On Off Off Off (End)) (On (On Off Off Off (End)) Off Off Off) Off (On (On Off (End) Off Off) Off Off Off)) (On (On Off (End) Off (End)) (On (On Off Off Off (End)) Off Off Off) (On (End) (On (End) Off Off Off) Off Off) Off)"

definition T_RB :: ptree where
  "T_RB = On (On Off (On (On Off (End) Off Off) Off (On (End) (End) Off (On Off (End) Off Off)) (On (On Off (End) Off Off) (End) Off Off)) (On (On Off (End) Off Off) (End) Off (On (On Off (End) Off Off) (End) Off Off)) (On (On Off (End) Off Off) (End) Off Off)) (On (On Off (End) Off (End)) Off (On (End) Off Off (On (End) Off Off Off)) (On (On Off (End) Off Off) Off Off Off)) (On (On Off (End) Off Off) (On (On Off Off Off (End)) Off Off Off) Off (On (On Off (End) Off Off) Off Off Off)) Off"

definition T_Br :: ptree where
  "T_Br = On Off (On (On Off (On Off Off (End) Off) (End) Off) Off (On (On Off (On Off Off (End) Off) (End) Off) (On Off Off (End) Off) Off (On (On Off Off (End) Off) (End) (End) Off)) (On (On Off (On Off Off (End) Off) (End) Off) (On Off Off (End) Off) (End) Off)) (On (On Off (On Off Off (End) Off) Off Off) (On (End) Off (End) Off) Off (On (On Off (End) Off Off) (End) Off Off)) (On (On Off (On Off Off (End) Off) Off Off) (On Off Off (End) Off) (On Off (On (End) Off Off Off) Off Off) Off)"

definition T_Bb :: ptree where
  "T_Bb = On (On Off (On Off Off (End) Off) (On (End) (On (End) Off Off Off) Off Off) (On Off Off (On (End) (On (End) Off Off Off) Off Off) Off)) Off (On (On Off (On Off Off (End) Off) (End) Off) (On (End) Off Off Off) Off (On (On Off (On Off Off (End) Off) (End) Off) Off Off Off)) (On (On Off (On Off Off (End) Off) (End) Off) (End) (On (End) (On (End) Off Off Off) Off Off) Off)"

definition T_BR :: ptree where
  "T_BR = On (On Off (On (End) Off (End) Off) (On Off (On (End) Off Off Off) Off Off) (On Off (End) (On Off (End) Off Off) Off)) (On (On Off (On (End) Off Off Off) (On (End) (On (End) Off Off Off) Off Off) (On (End) (End) (On (End) Off Off Off) Off)) Off (On (End) (On (End) Off Off Off) Off Off) (On (End) (On (End) Off Off Off) (On (End) (On (End) Off Off Off) Off Off) Off)) Off (On (On Off (On Off Off (End) Off) Off Off) (On (End) Off Off Off) (On Off (On (End) Off Off Off) Off Off) Off)"

definition T_r :: ptree where
  "T_r = On Off T_rb T_rR T_rB"

definition T_b :: ptree where
  "T_b = On T_br Off T_bR T_bB"

definition T_R :: ptree where
  "T_R = On T_Rr T_Rb Off T_RB"

definition T_B :: ptree where
  "T_B = On T_Br T_Bb T_BR Off"

definition root :: ptree where
  "root = On T_r T_b T_R T_B"

text \<open>
  \<open>agree n t q l\<close> compares the tree \<open>t\<close> of the sequence \<open>q\<close>, whose last symbol is \<open>l\<close>,
  with \<open>orderable_fast\<close> on every collapsed extension of \<open>q\<close> by up to \<open>n\<close> symbols.
\<close>

fun agree :: "nat \<Rightarrow> ptree \<Rightarrow> string \<Rightarrow> char \<Rightarrow> bool"
  and agree_at :: "nat \<Rightarrow> ptree \<Rightarrow> string \<Rightarrow> char \<Rightarrow> char \<Rightarrow> bool" where
  "agree 0 t q l = True"
| "agree (Suc n) t q l =
     (agree_at n t q l (CHR ''r'') \<and> agree_at n t q l (CHR ''b'')
      \<and> agree_at n t q l (CHR ''R'') \<and> agree_at n t q l (CHR ''B''))"
| "agree_at n t q l c =
     (if l = c then True
      else if orderable_fast (q @ [c])
        then present (child t c) \<and> agree n (child t c) (q @ [c]) c
        else \<not> present (child t c) \<and> agree n Off (q @ [c]) c)"

text \<open>
  \<open>walk n t l nr nb nR nB w\<close> adds up the weights of the hands that extend a hand of
  weight \<open>w\<close> by \<open>n\<close> cards and stay in the tree; \<open>t\<close> is the node of the hand's collapsed
  sequence, \<open>l\<close> its last suit and \<open>nr\<close>, \<open>nb\<close>, \<open>nR\<close>, \<open>nB\<close> count the cards left of
  each suit.
\<close>

fun walk :: "nat \<Rightarrow> ptree \<Rightarrow> char \<Rightarrow> int \<Rightarrow> int \<Rightarrow> int \<Rightarrow> int \<Rightarrow> int \<Rightarrow> int"
  and walk_at :: "nat \<Rightarrow> ptree \<Rightarrow> char \<Rightarrow> char \<Rightarrow> int \<Rightarrow> int \<Rightarrow> int \<Rightarrow> int \<Rightarrow> int \<Rightarrow> int" where
  "walk 0 t l nr nb nR nB w = w"
| "walk (Suc n) t l nr nb nR nB w =
     walk_at n t l (CHR ''r'') (nr - 1) nb nR nB (w * nr)
     + walk_at n t l (CHR ''b'') nr (nb - 1) nR nB (w * nb)
     + walk_at n t l (CHR ''R'') nr nb (nR - 1) nB (w * nR)
     + walk_at n t l (CHR ''B'') nr nb nR (nB - 1) (w * nB)"
| "walk_at n t l c nr nb nR nB w =
     (if l = c then walk n t c nr nb nR nB w
      else if present (child t c) then walk n (child t c) c nr nb nR nB w else 0)"

definition hands_from :: "(string \<Rightarrow> bool) \<Rightarrow> string \<Rightarrow> nat \<Rightarrow> string list" where
  "hands_from keep h n = (extend keep ^^ n) [h]"

text \<open>The cards left of a suit after a hand, the node of a hand and the walk from a hand.\<close>

definition remaining :: "string \<Rightarrow> char \<Rightarrow> int" where
  "remaining h c = 13 - int (count_list h c)"

definition node :: "string \<Rightarrow> ptree" where
  "node h = foldl child root (remdups_adj h)"

definition walk_hand :: "nat \<Rightarrow> string \<Rightarrow> int" where
  "walk_hand n h =
     walk n (node h) (last h) (remaining h (CHR ''r'')) (remaining h (CHR ''b''))
       (remaining h (CHR ''R'')) (remaining h (CHR ''B'')) (weight h)"

definition total :: "nat \<Rightarrow> int" where
  "total n =
     walk n T_r (CHR ''r'') 12 13 13 13 13 + walk n T_b (CHR ''b'') 13 12 13 13 13
     + walk n T_R (CHR ''R'') 13 13 12 13 13 + walk n T_B (CHR ''B'') 13 13 13 12 13"

section \<open>Collapsing\<close>

lemma upt_Suc_shift: "[0..<Suc n] = 0 # map Suc [0..<n]"
  by (simp add: upt_conv_Cons map_Suc_upt del: upt_Suc)

lemma collapse_Nil [simp]: "collapse [] = []"
  by (simp add: collapse_def)

lemma collapse_tail:
  "concat (map (\<lambda>i. if xs ! i \<noteq> (p # xs) ! i then [xs ! i] else []) [0..<length xs])
     = tl (remdups_adj (p # xs))"
proof (induction xs arbitrary: p)
  case Nil
  show ?case by simp
next
  case (Cons y ys)
  have "concat (map (\<lambda>i. if (y # ys) ! i \<noteq> (p # y # ys) ! i then [(y # ys) ! i] else [])
          [0..<length (y # ys)])
        = (if y \<noteq> p then [y] else []) @
          concat (map (\<lambda>i. if ys ! i \<noteq> (y # ys) ! i then [ys ! i] else []) [0..<length ys])"
    by (simp add: upt_Suc_shift comp_def del: upt_Suc cong: if_cong)
  also have "\<dots> = (if y \<noteq> p then [y] else []) @ tl (remdups_adj (y # ys))"
    by (simp only: Cons.IH)
  also have "\<dots> = tl (remdups_adj (p # y # ys))"
    by (cases ys) auto
  finally show ?case .
qed

lemma collapse_remdups_adj: "collapse xs = remdups_adj xs"
proof (cases xs)
  case Nil
  then show ?thesis by simp
next
  case (Cons x ys)
  have "collapse (x # ys) =
          x # concat (map (\<lambda>i. if ys ! i \<noteq> (x # ys) ! i then [ys ! i] else []) [0..<length ys])"
    by (simp add: collapse_def upt_Suc_shift comp_def del: upt_Suc cong: if_cong)
  also have "\<dots> = x # tl (remdups_adj (x # ys))"
    by (simp only: collapse_tail)
  also have "\<dots> = remdups_adj (x # ys)"
    by simp
  finally show ?thesis using Cons by simp
qed

lemma remdups_adj_idem: "remdups_adj (remdups_adj xs) = remdups_adj xs"
proof (induction xs rule: remdups_adj.induct)
  case (3 x y xs)
  obtain zs where zs: "remdups_adj (y # xs) = y # zs"
    by (metis remdups_adj_Cons_alt)
  show ?case
  proof (cases "x = y")
    case True
    with 3 show ?thesis by simp
  next
    case False
    with 3 zs show ?thesis by simp
  qed
qed simp_all

lemma collapse_idem: "collapse (collapse xs) = collapse xs"
  by (simp add: collapse_remdups_adj remdups_adj_idem)

section \<open>Splits, inserts and moves as sets\<close>

lemma in_concat_map_map:
  "x \<in> set (concat (map (\<lambda>i. map (g i) (f i)) xs)) \<longleftrightarrow> (\<exists>i\<in>set xs. \<exists>j\<in>set (f i). x = g i j)"
  by auto

lemma set_splits: "set (splits seq) = {(L, b, R). seq = L @ b @ R \<and> b \<noteq> []}"
proof (rule set_eqI)
  fix t :: "'a list \<times> 'a list \<times> 'a list"
  obtain L b R where t: "t = (L, b, R)" by (cases t)
  show "t \<in> set (splits seq) \<longleftrightarrow> t \<in> {(L, b, R). seq = L @ b @ R \<and> b \<noteq> []}"
  proof
    assume "t \<in> set (splits seq)"
    then have "\<exists>i\<in>set [0..<length seq]. \<exists>j\<in>set [i + 1..<length seq + 1].
        (L, b, R) = (take i seq, take (j - i) (drop i seq), drop j seq)"
      unfolding splits_def t in_concat_map_map .
    then obtain i j where mem: "i \<in> set [0..<length seq]" "j \<in> set [i + 1..<length seq + 1]"
      and eq: "(L, b, R) = (take i seq, take (j - i) (drop i seq), drop j seq)"
      by blast
    from mem have ij: "i < length seq" "i < j" "j \<le> length seq"
      by (simp_all del: upt_Suc)
    from eq have L: "L = take i seq" and b: "b = take (j - i) (drop i seq)"
      and R: "R = drop j seq"
      by simp_all
    have "drop j seq = drop (j - i) (drop i seq)" using ij by simp
    then have "b @ R = drop i seq" unfolding b R by (simp del: drop_drop)
    then have "seq = L @ b @ R" unfolding L by simp
    moreover have "b \<noteq> []" unfolding b using ij by simp
    ultimately show "t \<in> {(L, b, R). seq = L @ b @ R \<and> b \<noteq> []}" by (simp add: t)
  next
    assume "t \<in> {(L, b, R). seq = L @ b @ R \<and> b \<noteq> []}"
    then have s: "seq = L @ b @ R" and ne: "b \<noteq> []" by (simp_all add: t)
    define i where "i = length L"
    define j where "j = length L + length b"
    have mem: "i \<in> set [0..<length seq]" "j \<in> set [i + 1..<length seq + 1]"
      using ne by (simp_all add: i_def j_def s Suc_le_eq del: upt_Suc)
    have eq: "(take i seq, take (j - i) (drop i seq), drop j seq) = (L, b, R)"
      by (simp add: i_def j_def s)
    have "(take i seq, take (j - i) (drop i seq), drop j seq) \<in> set (splits seq)"
      unfolding splits_def in_concat_map_map using mem by blast
    then show "t \<in> set (splits seq)"
      unfolding t eq .
  qed
qed

lemma set_inserts: "set (inserts block others) = {u @ block @ v |u v. others = u @ v}"
proof (rule set_eqI)
  fix s
  show "s \<in> set (inserts block others) \<longleftrightarrow> s \<in> {u @ block @ v |u v. others = u @ v}"
  proof
    assume "s \<in> set (inserts block others)"
    then obtain i where "s = take i others @ block @ drop i others"
      unfolding inserts_def set_map by blast
    moreover have "others = take i others @ drop i others" by simp
    ultimately show "s \<in> {u @ block @ v |u v. others = u @ v}" by blast
  next
    assume "s \<in> {u @ block @ v |u v. others = u @ v}"
    then obtain u v where s: "s = u @ block @ v" and o: "others = u @ v" by blast
    have mem: "length u \<in> set [0..<length others + 1]"
      by (simp add: o del: upt_Suc)
    have eq: "take (length u) others @ block @ drop (length u) others = s"
      by (simp add: s o)
    have "take (length u) others @ block @ drop (length u) others \<in> set (inserts block others)"
      unfolding inserts_def set_map using mem by blast
    then show "s \<in> set (inserts block others)"
      unfolding eq .
  qed
qed

lemma moves_iff:
  "m \<in> moves seq \<longleftrightarrow>
     (\<exists>L b R u v. seq = L @ b @ R \<and> b \<noteq> [] \<and> L @ R = u @ v \<and> m = remdups_adj (u @ b @ v))"
  (is "?lhs \<longleftrightarrow> ?rhs")
proof
  assume ?lhs
  then obtain t s where t: "t \<in> set (splits seq)"
    and s: "s \<in> set (inserts (fst (snd t)) (fst t @ snd (snd t)))" and m: "m = collapse s"
    unfolding moves_def by (auto simp: case_prod_beta)
  obtain L b R where tt: "t = (L, b, R)" by (cases t)
  from t have "seq = L @ b @ R" "b \<noteq> []"
    unfolding set_splits tt by simp_all
  moreover from s obtain u v where "s = u @ b @ v" "L @ R = u @ v"
    unfolding set_inserts tt by auto
  ultimately show ?rhs
    using m unfolding collapse_remdups_adj by blast
next
  assume ?rhs
  then obtain L b R u v where seq: "seq = L @ b @ R" "b \<noteq> []"
    and uv: "L @ R = u @ v" and m: "m = remdups_adj (u @ b @ v)"
    by blast
  have "(L, b, R) \<in> set (splits seq)"
    unfolding set_splits using seq by simp
  moreover have "u @ b @ v \<in> set (inserts b (L @ R))"
    unfolding set_inserts using uv by blast
  ultimately have "collapse (u @ b @ v) \<in> moves seq"
    unfolding moves_def by force
  then show ?lhs
    unfolding m collapse_remdups_adj .
qed

section \<open>Basic facts about ordered sequences and moves\<close>

lemma ordered_remdups_adj: "ordered (remdups_adj x) = ordered x"
  by (simp add: ordered_def collapse_remdups_adj remdups_adj_idem)

text \<open>
  C7: for every sequence \<open>x\<close>, \<open>ordered x\<close> equals \<open>ordered (collapse x)\<close>: the predicate
  collapses its input first, and collapsing is idempotent.
\<close>

theorem ordered_collapse: "ordered x = ordered (collapse x)"
  by (simp add: ordered_def collapse_idem)

lemma moves_Nil: "moves [] = {}"
  by (auto simp: moves_iff)

lemma self_in_moves:
  assumes "seq \<noteq> []" and "collapse seq = seq"
  shows "seq \<in> moves seq"
proof -
  have "seq = [] @ seq @ []" "[] @ [] = [] @ ([] :: 'a list)" "seq = remdups_adj ([] @ seq @ [])"
    using assms(2) by (simp_all add: collapse_remdups_adj)
  with assms(1) show ?thesis
    unfolding moves_iff by blast
qed

text \<open>
  C8: the empty sequence has no move, so it is not orderable; the base case of the pruned
  distribution nevertheless maps the empty hand to probability 1.
\<close>

theorem empty_hand_in_deals_0:
  "moves ([] :: string) = {} \<and> \<not> orderable [] \<and> deals 0 = Some (Inr [([], 1)])
     \<and> \<not> orderable (collapse [])"
  by (simp add: moves_Nil orderable_def deals.simps)

text \<open>
  C9: a non-empty collapsed sequence is one of its own moves (the whole sequence is the
  block), so a non-empty collapsed sequence of length at most 7 that is ordered is orderable.
\<close>

theorem ordered_is_orderable:
  assumes "seq \<noteq> []" and "collapse seq = seq"
  shows "seq \<in> moves seq \<and> (length seq \<le> 7 \<and> ordered seq \<longrightarrow> orderable seq)"
  using self_in_moves[OF assms] unfolding orderable_def by blast

theorem ordered_is_orderable_witness:
  "''bRB'' \<noteq> [] \<and> collapse ''bRB'' = ''bRB'' \<and> length ''bRB'' \<le> 7 \<and> ordered ''bRB''
     \<and> ''bRB'' \<in> moves ''bRB'' \<and> orderable ''bRB''"
proof -
  have h1: "''bRB'' \<noteq> []" by simp
  have h2: "collapse ''bRB'' = ''bRB''" by code_simp
  have h3: "length ''bRB'' \<le> 7 \<and> ordered ''bRB''" by code_simp
  show ?thesis
    using h1 h2 h3 ordered_is_orderable[OF h1 h2] by blast
qed

text \<open>
  C10: every element of \<open>moves seq\<close> is a fixed point of \<open>collapse\<close>, that is, it has no
  two equal adjacent symbols.
\<close>

theorem moves_collapsed:
  "\<forall>m\<in>moves seq. collapse m = m \<and> (\<forall>i. Suc i < length m \<longrightarrow> m ! i \<noteq> m ! Suc i)"
proof
  fix m
  assume "m \<in> moves seq"
  then obtain x where m: "m = remdups_adj x"
    unfolding moves_iff by blast
  show "collapse m = m \<and> (\<forall>i. Suc i < length m \<longrightarrow> m ! i \<noteq> m ! Suc i)"
    unfolding m collapse_remdups_adj
    by (simp add: remdups_adj_idem remdups_adj_adjacent)
qed

theorem moves_collapsed_witness:
  "''Rb'' \<in> moves ''bRb'' \<and> collapse ''Rb'' = ''Rb'' \<and> ''Rb'' ! 0 \<noteq> ''Rb'' ! Suc 0"
proof -
  have h: "''Rb'' \<in> moves ''bRb''" by code_simp
  have "Suc 0 < length ''Rb''" by simp
  then show ?thesis
    using h moves_collapsed[of "''bRb''"] by blast
qed

section \<open>A move removes at most three runs\<close>

lemma remdups_adj_append_if:
  "remdups_adj (xs @ ys) =
     remdups_adj xs @
       (if xs \<noteq> [] \<and> ys \<noteq> [] \<and> last xs = hd ys then tl (remdups_adj ys) else remdups_adj ys)"
proof (induction xs rule: remdups_adj.induct)
  case 1
  show ?case by simp
next
  case (2 x)
  show ?case
  proof (cases ys)
    case Nil
    then show ?thesis by simp
  next
    case (Cons y zs)
    then show ?thesis by simp
  qed
next
  case (3 x y xs)
  then show ?case by simp
qed

lemma runs_append_le:
  "length (remdups_adj (xs @ ys)) \<le> length (remdups_adj xs) + length (remdups_adj ys)"
  by (simp add: remdups_adj_append_if)

lemma runs_append_ge:
  "length (remdups_adj xs) + length (remdups_adj ys) \<le> Suc (length (remdups_adj (xs @ ys)))"
  by (simp add: remdups_adj_append_if)

lemma runs_insert_ge:
  "length (remdups_adj (u @ v)) + length (remdups_adj b) \<le> length (remdups_adj (u @ b @ v)) + 2"
proof -
  have "length (remdups_adj (u @ v)) \<le> length (remdups_adj u) + length (remdups_adj v)"
    by (rule runs_append_le)
  moreover have "length (remdups_adj b) + length (remdups_adj v) \<le> Suc (length (remdups_adj (b @ v)))"
    by (rule runs_append_ge)
  moreover have "length (remdups_adj u) + length (remdups_adj (b @ v))
      \<le> Suc (length (remdups_adj (u @ b @ v)))"
    by (rule runs_append_ge)
  ultimately show ?thesis by linarith
qed

lemma runs_extract_le:
  "length (remdups_adj (L @ b @ R)) \<le> Suc (length (remdups_adj (L @ R)) + length (remdups_adj b))"
proof -
  have "length (remdups_adj (L @ b @ R)) \<le> length (remdups_adj L) + length (remdups_adj (b @ R))"
    by (rule runs_append_le)
  moreover have "length (remdups_adj (b @ R)) \<le> length (remdups_adj b) + length (remdups_adj R)"
    by (rule runs_append_le)
  moreover have "length (remdups_adj L) + length (remdups_adj R) \<le> Suc (length (remdups_adj (L @ R)))"
    by (rule runs_append_ge)
  ultimately show ?thesis by linarith
qed

lemma move_runs:
  assumes "L @ R = u @ v"
  shows "length (remdups_adj (L @ b @ R)) \<le> length (remdups_adj (u @ b @ v)) + 3"
  using runs_extract_le[of L b R] runs_insert_ge[of u v b] assms by simp

lemma card_suits: "card (set suits) = 4"
  by (simp add: suits_def)

lemma ordered_length_le:
  assumes "ordered m" and "set m \<subseteq> set suits"
  shows "length (remdups_adj m) \<le> 4"
proof -
  from assms(1) have "length (remdups_adj m) = card (set (remdups_adj m))"
    by (simp add: ordered_def Let_def once_each_def collapse_remdups_adj)
  also have "\<dots> \<le> card (set suits)"
    using assms(2) by (simp add: card_mono)
  finally show ?thesis by (simp add: card_suits)
qed

lemma set_move:
  assumes "L @ R = u @ v"
  shows "set (u @ b @ v) = set (L @ b @ R)"
proof -
  have "set (u @ b @ v) = set (u @ v) \<union> set b" by auto
  also have "\<dots> = set (L @ R) \<union> set b" by (simp only: assms)
  also have "\<dots> = set (L @ b @ R)" by auto
  finally show ?thesis .
qed

lemma long_moves_not_ordered:
  assumes alpha: "set seq \<subseteq> set suits" and coll: "collapse seq = seq"
    and long: "7 < length seq" and m: "m \<in> moves seq"
  shows "\<not> ordered m"
proof
  assume ord: "ordered m"
  from m obtain L b R u v where seq: "seq = L @ b @ R" and uv: "L @ R = u @ v"
    and m_eq: "m = remdups_adj (u @ b @ v)"
    unfolding moves_iff by blast
  have "set m \<subseteq> set suits"
    using alpha unfolding m_eq seq by (simp add: set_move[OF uv] del: set_append)
  from ordered_length_le[OF ord this] have "length (remdups_adj (u @ b @ v)) \<le> 4"
    unfolding m_eq by (simp add: remdups_adj_idem)
  with move_runs[OF uv, of b] have "length (remdups_adj seq) \<le> 7"
    unfolding seq by simp
  with coll long show False
    by (simp add: collapse_remdups_adj)
qed

lemma orderable_eq_unpruned:
  assumes "set seq \<subseteq> set suits" and "collapse seq = seq"
  shows "orderable seq = orderable_unpruned seq"
proof (cases "7 < length seq")
  case True
  from long_moves_not_ordered[OF assms True] have "\<forall>m\<in>moves seq. \<not> ordered m"
    by blast
  then show ?thesis
    unfolding orderable_def orderable_unpruned_def by simp
next
  case False
  then show ?thesis
    unfolding orderable_def orderable_unpruned_def by simp
qed

text \<open>
  C2: no move of a collapsed sequence of suit symbols longer than 7 is ordered, so the
  predicate with the length guard agrees with the exhaustive one on every collapsed
  sequence of suit symbols.
\<close>

theorem length_guard_sound:
  assumes "set seq \<subseteq> set suits" and "collapse seq = seq"
  shows "(7 < length seq \<longrightarrow> (\<forall>m\<in>moves seq. \<not> ordered m))
     \<and> orderable seq = orderable_unpruned seq"
proof -
  have "\<forall>m\<in>moves seq. \<not> ordered m" if "7 < length seq"
    using long_moves_not_ordered[OF assms that] by blast
  then show ?thesis
    unfolding orderable_def orderable_unpruned_def by (cases "7 < length seq") auto
qed

theorem length_guard_sound_witness:
  "set ''bBrbRBrb'' \<subseteq> set suits \<and> collapse ''bBrbRBrb'' = ''bBrbRBrb'' \<and> 7 < length ''bBrbRBrb''
     \<and> \<not> orderable_unpruned ''bBrbRBrb'' \<and> \<not> orderable ''bBrbRBrb''"
proof -
  have h1: "set ''bBrbRBrb'' \<subseteq> set suits" by code_simp
  have h2: "collapse ''bBrbRBrb'' = ''bBrbRBrb''" by code_simp
  have h3: "7 < length ''bBrbRBrb''" by simp
  have h4: "\<not> orderable ''bBrbRBrb''" by (simp add: orderable_def)
  show ?thesis
    using h1 h2 h3 h4 length_guard_sound[OF h1 h2] by blast
qed

section \<open>The distributions as explicit lists\<close>

lemma deals_unpruned_run: "deals_unpruned (int n) = Some (run (\<lambda>_. True) n)"
proof (induction n)
  case 0
  show ?case by (simp add: deals_unpruned.simps)
next
  case (Suc n)
  have "deals_unpruned (int (Suc n)) =
      Option.bind (deals_unpruned (int n)) (\<lambda>r. Some
        (case r of Inl e \<Rightarrow> Inl e
         | Inr d \<Rightarrow> dict_comp [item hand p suit. (hand, p) \<leftarrow> d, suit \<leftarrow> suits]))"
    by (subst deals_unpruned.simps) simp
  then show ?case
    by (simp add: Suc.IH step_def split: sum.split)
qed

lemma deals_run: "deals (int n) = Some (run keep_orderable n)"
proof (induction n)
  case 0
  show ?case by (simp add: deals.simps)
next
  case (Suc n)
  have "deals (int (Suc n)) =
      Option.bind (deals (int n)) (\<lambda>r. Some
        (case r of Inl e \<Rightarrow> Inl e
         | Inr d \<Rightarrow> dict_comp [item hand p suit. (hand, p) \<leftarrow> d, suit \<leftarrow> suits,
                               orderable (collapse (hand @ [suit]))]))"
    by (subst deals.simps) simp
  then show ?case
    by (simp add: Suc.IH step_def keep_orderable_def split: sum.split)
qed

lemma update_fresh: "k \<notin> fst ` set al \<Longrightarrow> AList.update k v al = al @ [(k, v)]"
  by (induction al) auto

lemma fold_update_distinct:
  "distinct (map fst (acc @ kvs)) \<Longrightarrow>
     fold (\<lambda>(k, v) d. AList.update k v d) kvs acc = acc @ kvs"
proof (induction kvs arbitrary: acc)
  case Nil
  show ?case by simp
next
  case (Cons kv kvs)
  obtain k v where kv: "kv = (k, v)" by (cases kv)
  from Cons.prems have fresh: "k \<notin> fst ` set acc"
    by (auto simp: kv)
  from Cons.prems have "distinct (map fst ((acc @ [(k, v)]) @ kvs))"
    by (simp add: kv)
  from Cons.IH[OF this] show ?case
    by (simp add: kv update_fresh[OF fresh])
qed

lemma dict_of_distinct: "distinct (map fst kvs) \<Longrightarrow> dict_of kvs = kvs"
  using fold_update_distinct[of "[]" kvs] by (simp add: dict_of_def)

lemma sequence_err_Inr: "sequence_err (map Inr xs) = Inr xs"
  by (induction xs) simp_all

lemma item_ok:
  "length hand < 52 \<Longrightarrow>
     item hand p suit =
       Inr (hand @ [suit], p * of_int (13 - int (count_list hand suit)) / of_int (52 - int (length hand)))"
  by (simp add: item_def frac_div_def)

lemma weight_snoc: "weight (h @ [s]) = weight h * (13 - int (count_list h s))"
  by (simp add: weight_def)

lemma prob_snoc:
  "prob (h @ [s]) = prob h * of_int (13 - int (count_list h s)) / of_int (52 - int (length h))"
  by (simp add: prob_def weight_snoc)

lemma concat_if_filter:
  "concat (map (\<lambda>s. if P s then [f s] else []) ss) = map f (filter P ss)"
  by (induction ss) simp_all

lemma extend_filter:
  "extend keep hs = concat (map (\<lambda>h. map (\<lambda>s. h @ [s]) (filter (\<lambda>s. keep (h @ [s])) suits)) hs)"
  by (simp add: extend_def concat_if_filter)

lemma extend_Nil: "extend keep [] = []"
  by (simp add: extend_filter)

lemma extend_Cons:
  "extend keep (h # hs) = map (\<lambda>s. h @ [s]) (filter (\<lambda>s. keep (h @ [s])) suits) @ extend keep hs"
  by (simp add: extend_filter)

lemma set_extend:
  "set (extend keep hs) = {h @ [s] |h s. h \<in> set hs \<and> s \<in> set suits \<and> keep (h @ [s])}"
  unfolding extend_filter by auto

lemma hands_length: "h \<in> set (hands keep n) \<Longrightarrow> length h = n"
proof (induction n arbitrary: h)
  case 0
  then show ?case by simp
next
  case (Suc n)
  from Suc.prems obtain h' s where "h = h' @ [s]" "h' \<in> set (hands keep n)"
    unfolding hands.simps set_extend by blast
  with Suc.IH[of h'] show ?case by simp
qed

lemma hands_alphabet: "h \<in> set (hands keep n) \<Longrightarrow> set h \<subseteq> set suits"
proof (induction n arbitrary: h)
  case 0
  then show ?case by simp
next
  case (Suc n)
  from Suc.prems obtain h' s where "h = h' @ [s]" "h' \<in> set (hands keep n)" "s \<in> set suits"
    unfolding hands.simps set_extend by blast
  with Suc.IH[of h'] show ?case by simp
qed

lemma distinct_extend:
  assumes "distinct hs"
  shows "distinct (extend keep hs)"
  using assms
proof (induction hs)
  case Nil
  show ?case by (simp add: extend_Nil)
next
  case (Cons h hs)
  have "distinct suits" by (simp add: suits_def)
  then have d1: "distinct (map (\<lambda>s. h @ [s]) (filter (\<lambda>s. keep (h @ [s])) suits))"
    by (simp add: distinct_map inj_on_def)
  have d2: "distinct (extend keep hs)"
    using Cons by simp
  have d3: "set (map (\<lambda>s. h @ [s]) (filter (\<lambda>s. keep (h @ [s])) suits))
      \<inter> set (extend keep hs) = {}"
    unfolding set_extend using Cons.prems by auto
  show ?case
    unfolding extend_Cons using d1 d2 d3 by (simp only: distinct_append)
qed

lemma hands_distinct: "distinct (hands keep n)"
  by (induction n) (simp_all add: distinct_extend)

lemma items_inner:
  assumes "length h < 52"
  shows "concat (map (\<lambda>suit. if keep (h @ [suit]) then [item h (prob h) suit] else []) ss)
     = map Inr (map (\<lambda>h. (h, prob h)) (map (\<lambda>s. h @ [s]) (filter (\<lambda>s. keep (h @ [s])) ss)))"
  by (induction ss) (simp_all add: item_ok[OF assms] prob_snoc)

lemma items_explicit:
  assumes "\<forall>h\<in>set hs. length h < 52"
  shows "[item hand p suit. (hand, p) \<leftarrow> map (\<lambda>h. (h, prob h)) hs, suit \<leftarrow> suits,
            keep (hand @ [suit])]
     = map Inr (map (\<lambda>h. (h, prob h)) (extend keep hs))"
  using assms by (induction hs) (simp_all add: items_inner extend_Nil extend_Cons)

lemma step_explicit:
  assumes "\<forall>h\<in>set hs. length h < 52" and "distinct hs"
  shows "step keep (map (\<lambda>h. (h, prob h)) hs) = Inr (map (\<lambda>h. (h, prob h)) (extend keep hs))"
proof -
  have "distinct (map fst (map (\<lambda>h. (h, prob h)) (extend keep hs)))"
    using distinct_extend[OF assms(2), of keep] by (simp add: comp_def)
  then show ?thesis
    unfolding step_def dict_comp_def items_explicit[OF assms(1)] sequence_err_Inr
    by (simp add: dict_of_distinct)
qed

lemma run_explicit: "n \<le> 52 \<Longrightarrow> run keep n = Inr (map (\<lambda>h. (h, prob h)) (hands keep n))"
proof (induction n)
  case 0
  have "prob [] = 1" by (simp add: prob_def weight_def)
  then show ?case by simp
next
  case (Suc n)
  then have IH: "run keep n = Inr (map (\<lambda>h. (h, prob h)) (hands keep n))" by simp
  have *: "\<forall>h\<in>set (hands keep n). length h < 52"
    using Suc.prems by (auto dest: hands_length)
  have "run keep (Suc n) = step keep (map (\<lambda>h. (h, prob h)) (hands keep n))"
    by (simp only: run.simps IH sum.case)
  also have "\<dots> = Inr (map (\<lambda>h. (h, prob h)) (extend keep (hands keep n)))"
    by (rule step_explicit[OF * hands_distinct])
  finally show ?case
    by (simp only: hands.simps)
qed

section \<open>The full distribution\<close>

lemma length_extend_all: "length (extend (\<lambda>_. True) hs) = 4 * length hs"
  by (induction hs) (simp_all add: extend_Nil extend_Cons suits_def)

lemma length_hands_all: "length (hands (\<lambda>_. True) n) = 4 ^ n"
  by (induction n) (simp_all add: length_extend_all)

lemma count_suits:
  "set h \<subseteq> set suits \<Longrightarrow> (\<Sum>s\<leftarrow>suits. int (count_list h s)) = int (length h)"
  by (induction h) (auto simp: suits_def)

lemma remaining_suits:
  assumes "set h \<subseteq> set suits"
  shows "(\<Sum>s\<leftarrow>suits. 13 - int (count_list h s)) = 52 - int (length h)"
proof -
  have "(\<Sum>s\<leftarrow>suits. 13 - int (count_list h s)) = 52 - (\<Sum>s\<leftarrow>suits. int (count_list h s))"
    by (simp add: suits_def)
  then show ?thesis
    by (simp add: count_suits[OF assms])
qed

lemma weight_extend_one:
  "(\<Sum>x\<leftarrow>map (\<lambda>s. h @ [s]) ss. weight x) = weight h * (\<Sum>s\<leftarrow>ss. 13 - int (count_list h s))"
  by (induction ss) (simp_all add: weight_snoc algebra_simps)

lemma weight_extend_all:
  assumes "\<forall>h\<in>set hs. set h \<subseteq> set suits \<and> length h = n"
  shows "(\<Sum>x\<leftarrow>extend (\<lambda>_. True) hs. weight x) = (\<Sum>h\<leftarrow>hs. weight h) * (52 - int n)"
  using assms
proof (induction hs)
  case Nil
  show ?case by (simp add: extend_Nil)
next
  case (Cons h hs)
  have "(\<Sum>x\<leftarrow>extend (\<lambda>_. True) (h # hs). weight x)
      = (\<Sum>x\<leftarrow>map (\<lambda>s. h @ [s]) suits. weight x) + (\<Sum>x\<leftarrow>extend (\<lambda>_. True) hs. weight x)"
    by (simp add: extend_Cons)
  also have "\<dots> = weight h * (52 - int n) + (\<Sum>h\<leftarrow>hs. weight h) * (52 - int n)"
    using Cons unfolding weight_extend_one by (simp add: remaining_suits)
  finally show ?case
    by (simp add: algebra_simps)
qed

lemma weight_hands_all: "(\<Sum>h\<leftarrow>hands (\<lambda>_. True) n. weight h) = deck_prod n"
proof (induction n)
  case 0
  show ?case by (simp add: weight_def)
next
  case (Suc n)
  have "\<forall>h\<in>set (hands (\<lambda>_. True) n). set h \<subseteq> set suits \<and> length h = n"
    by (auto dest: hands_alphabet hands_length)
  from weight_extend_all[OF this] Suc.IH show ?case
    by simp
qed

lemma deck_prod_pos: "n \<le> 52 \<Longrightarrow> 0 < deck_prod n"
  by (induction n) simp_all

lemma sum_prob:
  assumes "\<forall>h\<in>set hs. length h = n"
  shows "(\<Sum>h\<leftarrow>hs. prob h) = of_int (\<Sum>h\<leftarrow>hs. weight h) / of_int (deck_prod n)"
  using assms by (induction hs) (simp_all add: prob_def add_divide_distrib)

lemma sum_prob_hands:
  "(\<Sum>h\<leftarrow>hands keep n. prob h) = of_int (\<Sum>h\<leftarrow>hands keep n. weight h) / of_int (deck_prod n)"
  by (rule sum_prob) (auto dest: hands_length)

lemma sum_prob_all: "n \<le> 52 \<Longrightarrow> (\<Sum>h\<leftarrow>hands (\<lambda>_. True) n. prob h) = 1"
  using deck_prod_pos[of n] by (simp add: sum_prob_hands weight_hands_all)

text \<open>
  C4: for every \<open>N\<close> from 0 to 13 the full distribution has \<open>4 ^ N\<close> distinct hands as
  keys, and its probabilities add up to exactly 1.
\<close>

theorem deals_unpruned_total:
  assumes "0 \<le> N" and "N \<le> 13"
  shows "\<exists>d. deals_unpruned N = Some (Inr d) \<and> distinct (map fst d)
     \<and> length d = 4 ^ nat N \<and> card (fst ` set d) = 4 ^ nat N \<and> sum_list (map snd d) = 1"
proof -
  define n where "n = nat N"
  define d where "d = map (\<lambda>h. (h, prob h)) (hands (\<lambda>_. True) n)"
  have n: "N = int n" "n \<le> 52"
    using assms by (simp_all add: n_def)
  have keys: "map fst d = hands (\<lambda>_. True) n" and vals: "map snd d = map prob (hands (\<lambda>_. True) n)"
    by (simp_all add: d_def comp_def)
  have "deals_unpruned N = Some (Inr d)"
    unfolding n(1) deals_unpruned_run run_explicit[OF n(2)] d_def ..
  moreover have dist: "distinct (map fst d)"
    unfolding keys by (rule hands_distinct)
  moreover have len: "length d = 4 ^ n"
    by (simp add: d_def length_hands_all)
  moreover have "card (fst ` set d) = 4 ^ n"
    using distinct_card[OF dist] len by simp
  moreover have "sum_list (map snd d) = 1"
    unfolding vals using sum_prob_all[OF n(2)] by simp
  ultimately show ?thesis
    unfolding n_def by blast
qed

theorem deals_unpruned_total_witness:
  "(0::int) \<le> 2 \<and> (2::int) \<le> 13 \<and> (\<exists>d. deals_unpruned 2 = Some (Inr d) \<and> distinct (map fst d)
     \<and> length d = 16 \<and> card (fst ` set d) = 16 \<and> sum_list (map snd d) = 1)"
proof -
  have h1: "(0::int) \<le> 2" and h2: "(2::int) \<le> 13" by simp_all
  show ?thesis
    using h1 h2 deals_unpruned_total[OF h1 h2] by simp
qed

section \<open>Hand lengths from 0 to 52\<close>

lemma ordered_single: "ordered [c]"
proof -
  have "collapse [c] = [c]" by (simp add: collapse_remdups_adj)
  moreover have "once_each [c]" by (simp add: once_each_def)
  moreover have "card (colors [c]) = 1" by (simp add: colors_def casefold_def)
  ultimately show ?thesis
    by (simp add: ordered_def)
qed

lemma orderable_single: "orderable [c]"
proof -
  have "[c] \<in> moves [c]"
    by (rule self_in_moves) (simp_all add: collapse_remdups_adj)
  then show ?thesis
    unfolding orderable_def using ordered_single[of c] by auto
qed

lemma keep_orderable_single: "keep_orderable [c]"
  by (simp add: keep_orderable_def collapse_remdups_adj orderable_single)

lemma deals_in_range:
  assumes "0 \<le> N" and "N \<le> 52"
  shows "deals N = Some (Inr (map (\<lambda>h. (h, prob h)) (hands keep_orderable (nat N))))"
proof -
  have N: "N = int (nat N)" and n: "nat N \<le> 52"
    using assms by simp_all
  have "deals (int (nat N)) = Some (Inr (map (\<lambda>h. (h, prob h)) (hands keep_orderable (nat N))))"
    by (simp only: deals_run run_explicit[OF n])
  then show ?thesis
    by (simp only: N[symmetric])
qed

lemma deals_unpruned_in_range:
  assumes "0 \<le> N" and "N \<le> 52"
  shows "deals_unpruned N = Some (Inr (map (\<lambda>h. (h, prob h)) (hands (\<lambda>_. True) (nat N))))"
proof -
  have N: "N = int (nat N)" and n: "nat N \<le> 52"
    using assms by simp_all
  have "deals_unpruned (int (nat N))
      = Some (Inr (map (\<lambda>h. (h, prob h)) (hands (\<lambda>_. True) (nat N))))"
    by (simp only: deals_unpruned_run run_explicit[OF n])
  then show ?thesis
    by (simp only: N[symmetric])
qed

text \<open>
  C6, as the code behaves: \<open>N\<close> is not checked.  For every \<open>N\<close> from 14 to 52 the
  distribution builder and \<open>orderable_probability\<close> return a result instead of failing.
\<close>

theorem deals_beyond_13_returns:
  assumes "13 < N" and "N \<le> 52"
  shows "(\<exists>d. deals N = Some (Inr d)) \<and> (\<exists>p. orderable_probability N = Some (Inr p))"
proof -
  have "0 \<le> N"
    using assms(1) by simp
  from deals_in_range[OF this assms(2)] show ?thesis
    by (simp add: orderable_probability_def)
qed

theorem deals_beyond_13_returns_witness:
  "(13::int) < 14 \<and> (14::int) \<le> 52
   \<and> (\<exists>d. deals 14 = Some (Inr d)) \<and> (\<exists>p. orderable_probability 14 = Some (Inr p))"
proof -
  have h1: "(13::int) < 14" and h2: "(14::int) \<le> 52" by simp_all
  from deals_beyond_13_returns[OF h1 h2] h1 h2 show ?thesis by blast
qed

text \<open>At \<open>N = 14\<close> both return a value, not an error.\<close>

theorem deals_14_returns:
  "map_option isl (deals 14) = Some False \<and> map_option isl (orderable_probability 14) = Some False"
proof -
  have "(0::int) \<le> 14" and "(14::int) \<le> 52" by simp_all
  from deals_in_range[OF this] show ?thesis
    by (simp add: orderable_probability_def)
qed

section \<open>The faster test is the orderable predicate\<close>

lemma runs_eq: "runs xs = length (remdups_adj xs)"
  by (induction xs rule: runs.induct) simp_all

lemma mem_eq: "mem x xs \<longleftrightarrow> x \<in> set xs"
  by (induction xs) auto

lemma nsyms_eq: "nsyms xs = card (set xs)"
  by (induction xs) (simp_all add: mem_eq card_insert_if)

lemma casefold_suits:
  "casefold ''r'' = ''r'' \<and> casefold ''b'' = ''b'' \<and> casefold ''R'' = ''r'' \<and> casefold ''B'' = ''b''"
  by code_simp

lemma same_color_eq:
  assumes "x \<in> set suits" and "y \<in> set suits"
  shows "same_color x y \<longleftrightarrow> casefold [x] = casefold [y]"
  using assms casefold_suits unfolding same_color_def suits_def by auto

lemma one_color_eq: "one_color c xs \<longleftrightarrow> (\<forall>x\<in>set xs. same_color c x)"
  by (induction xs) simp_all

lemma card_insert_one:
  assumes "finite A"
  shows "card (insert a A) = 1 \<longleftrightarrow> A \<subseteq> {a}"
proof
  assume c: "card (insert a A) = 1"
  then obtain z where z: "insert a A = {z}"
    by (auto simp: card_1_singleton_iff)
  then have "z = a" by blast
  with z show "A \<subseteq> {a}" by blast
next
  assume "A \<subseteq> {a}"
  then have e: "insert a A = {a}" by blast
  show "card (insert a A) = 1" unfolding e by simp
qed

lemma colors_Cons: "colors (c # cs) = insert (hd (casefold [c])) ((\<lambda>x. hd (casefold [x])) ` set cs)"
  by (auto simp: colors_def casefold_def)

lemma one_color_colors:
  assumes "set (c # cs) \<subseteq> set suits"
  shows "one_color c cs \<longleftrightarrow> card (colors (c # cs)) = 1"
proof -
  have eq: "same_color c x \<longleftrightarrow> hd (casefold [x]) = hd (casefold [c])" if "x \<in> set cs" for x
  proof -
    from that assms have "c \<in> set suits" "x \<in> set suits" by auto
    from same_color_eq[OF this] show ?thesis
      by (auto simp: casefold_def)
  qed
  have "card (colors (c # cs)) = 1 \<longleftrightarrow> (\<lambda>x. hd (casefold [x])) ` set cs \<subseteq> {hd (casefold [c])}"
    unfolding colors_Cons by (rule card_insert_one) simp
  also have "\<dots> \<longleftrightarrow> (\<forall>x\<in>set cs. same_color c x)"
    using eq by auto
  finally show ?thesis
    by (simp add: one_color_eq)
qed

lemma sublist_pair:
  "sublist [a, b] (x # y # xs) \<longleftrightarrow> (a = x \<and> b = y) \<or> sublist [a, b] (y # xs)"
  by (simp add: sublist_Cons_right)

lemma sublist_pair_short: "\<not> sublist [a, b] []" "\<not> sublist [a, b] [x]"
  by (simp_all add: sublist_Cons_right)

lemma adjacent_colors_Cons:
  "adjacent_colors (x # y # xs) \<longleftrightarrow>
     [x, y] \<in> {''rR'', ''Rr'', ''Bb'', ''bB''} \<or> adjacent_colors (y # xs)"
  unfolding adjacent_colors_def list_ex_Cons_iff list_ex_Nil_iff sublist_pair by auto

lemma adjacent_colors_short: "\<not> adjacent_colors []" "\<not> adjacent_colors [x]"
  unfolding adjacent_colors_def list_ex_Cons_iff list_ex_Nil_iff by (simp_all add: sublist_Cons_right)

lemma same_color_pair:
  assumes "x \<in> set suits" and "y \<in> set suits"
  shows "[x, y] \<in> {''rR'', ''Rr'', ''Bb'', ''bB''} \<longleftrightarrow> x \<noteq> y \<and> same_color x y"
  using assms unfolding same_color_def suits_def by auto

lemma adjacent_fast_eq: "set xs \<subseteq> set suits \<Longrightarrow> adjacent_fast xs \<longleftrightarrow> adjacent_colors xs"
proof (induction xs rule: adjacent_fast.induct)
  case 1
  show ?case by (simp add: adjacent_colors_short)
next
  case (2 x)
  show ?case by (simp add: adjacent_colors_short)
next
  case (3 x y xs)
  then have xy: "x \<in> set suits" "y \<in> set suits" and rest: "set (y # xs) \<subseteq> set suits"
    by simp_all
  show ?case
  proof (cases "x = y")
    case True
    with "3.IH"(1) rest have "adjacent_fast (y # xs) \<longleftrightarrow> adjacent_colors (y # xs)"
      by blast
    with True show ?thesis
      unfolding adjacent_colors_Cons same_color_pair[OF xy] by simp
  next
    case False
    show ?thesis
    proof (cases "same_color x y")
      case True
      with False show ?thesis
        unfolding adjacent_colors_Cons same_color_pair[OF xy] by simp
    next
      case nc: False
      with "3.IH"(2) False rest have "adjacent_fast (y # xs) \<longleftrightarrow> adjacent_colors (y # xs)"
        by blast
      with False nc show ?thesis
        unfolding adjacent_colors_Cons same_color_pair[OF xy] by simp
    qed
  qed
qed

lemma adjacent_fast_collapse: "adjacent_fast (remdups_adj xs) = adjacent_fast xs"
proof (induction xs rule: remdups_adj.induct)
  case (3 x y xs)
  obtain zs where zs: "remdups_adj (y # xs) = y # zs"
    by (metis remdups_adj_Cons_alt)
  show ?case
  proof (cases "x = y")
    case True
    with 3 show ?thesis by simp
  next
    case False
    with 3 zs show ?thesis by simp
  qed
qed simp_all

lemma same_color_refl: "c \<in> set suits \<Longrightarrow> same_color c c"
  by (auto simp: same_color_def suits_def)

lemma one_color_collapse:
  assumes "remdups_adj (c # cs) = c' # cs'" and "c \<in> set suits"
  shows "one_color c' cs' \<longleftrightarrow> one_color c cs"
proof -
  have c: "c' = c"
    using assms(1) hd_remdups_adj[of "c # cs"] by simp
  have "set (c' # cs') = set (c # cs)"
    using remdups_adj_set[of "c # cs"] assms(1) by simp
  then have e: "insert c (set cs') = insert c (set cs)"
    by (simp add: c)
  have "(\<forall>x\<in>set ys. same_color c x) \<longleftrightarrow> (\<forall>x\<in>insert c (set ys). same_color c x)" for ys
    using same_color_refl[OF assms(2)] by blast
  then show ?thesis
    unfolding one_color_eq c by (simp only: e)
qed

lemma color_ok_collapse:
  assumes "set xs \<subseteq> set suits"
  shows "color_ok (remdups_adj xs) = color_ok xs"
proof (cases xs)
  case Nil
  then show ?thesis by simp
next
  case (Cons c cs)
  obtain cs' where eq: "remdups_adj (c # cs) = c # cs'"
    by (metis remdups_adj_Cons_alt)
  have "c \<in> set suits"
    using assms Cons by simp
  from one_color_collapse[OF eq this] have "color_ok (c # cs') = color_ok (c # cs)"
    using adjacent_fast_collapse[of "c # cs"] eq by simp
  then show ?thesis
    by (simp add: Cons eq)
qed

lemma color_ok_eq:
  assumes "set m \<subseteq> set suits"
  shows "color_ok m \<longleftrightarrow> card (colors m) = 1 \<or> \<not> adjacent_colors m"
proof (cases m)
  case Nil
  then show ?thesis by (simp add: adjacent_colors_short)
next
  case (Cons c cs)
  show ?thesis
    using one_color_colors[of c cs] adjacent_fast_eq[of m] assms
    unfolding Cons by simp
qed

lemma quick_eq:
  assumes "set x \<subseteq> set suits"
  shows "quick (card (set x)) x \<longleftrightarrow> ordered x"
proof -
  have "set (remdups_adj x) \<subseteq> set suits"
    using assms by simp
  from color_ok_eq[OF this] show ?thesis
    unfolding quick_def ordered_def Let_def once_each_def collapse_remdups_adj runs_eq
    by (simp add: color_ok_collapse[OF assms])
qed

lemma any_insert_eq:
  "any_insert d b u v \<longleftrightarrow> (\<exists>v1 v2. v = v1 @ v2 \<and> quick d (u @ v1 @ b @ v2))"
proof (induction v arbitrary: u)
  case Nil
  show ?case by simp
next
  case (Cons y v)
  have "(\<exists>v1 v2. y # v = v1 @ v2 \<and> quick d (u @ v1 @ b @ v2))
      \<longleftrightarrow> quick d (u @ b @ y # v) \<or> (\<exists>w1 v2. v = w1 @ v2 \<and> quick d (u @ (y # w1) @ b @ v2))"
    (is "?lhs \<longleftrightarrow> ?a \<or> ?b")
  proof
    assume ?lhs
    then obtain v1 v2 where eq: "y # v = v1 @ v2" and q: "quick d (u @ v1 @ b @ v2)"
      by blast
    show "?a \<or> ?b"
    proof (cases v1)
      case Nil
      with eq q show ?thesis by simp
    next
      case (Cons z w1)
      with eq have "z = y" "v = w1 @ v2" by simp_all
      with q Cons have ?b by blast
      then show ?thesis ..
    qed
  next
    assume "?a \<or> ?b"
    then show ?lhs
    proof
      assume ?a
      then have "y # v = [] @ (y # v) \<and> quick d (u @ [] @ b @ (y # v))" by simp
      then show ?lhs by blast
    next
      assume ?b
      then obtain w1 v2 where "v = w1 @ v2" "quick d (u @ (y # w1) @ b @ v2)" by blast
      then have "y # v = (y # w1) @ v2 \<and> quick d (u @ (y # w1) @ b @ v2)" by simp
      then show ?lhs by blast
    qed
  qed
  then show ?case
    by (simp add: Cons.IH)
qed

lemma quick_runs: "quick d x \<Longrightarrow> length (remdups_adj x) = d"
  by (simp add: quick_def runs_eq split: if_splits)

lemma try_block_eq:
  "try_block d L b R \<longleftrightarrow> (\<exists>u v. L @ R = u @ v \<and> quick d (u @ b @ v))"
proof (cases "runs (L @ R) + runs b \<le> Suc (Suc d)")
  case True
  then show ?thesis
    by (simp add: try_block_def any_insert_eq)
next
  case False
  have "\<not> quick d (u @ b @ v)" if "L @ R = u @ v" for u v
  proof
    assume "quick d (u @ b @ v)"
    from quick_runs[OF this] runs_insert_ge[of u v b] have "runs (u @ v) + runs b \<le> Suc (Suc d)"
      by (simp add: runs_eq)
    with False that show False by simp
  qed
  with False show ?thesis
    by (auto simp: try_block_def)
qed

lemma any_block_eq:
  "any_block d L b R \<longleftrightarrow> (\<exists>R1 R2. R = R1 @ R2 \<and> try_block d L (b @ R1) R2)"
proof (induction R arbitrary: b)
  case Nil
  show ?case by simp
next
  case (Cons y R)
  have "(\<exists>R1 R2. y # R = R1 @ R2 \<and> try_block d L (b @ R1) R2)
      \<longleftrightarrow> try_block d L b (y # R) \<or> (\<exists>S1 R2. R = S1 @ R2 \<and> try_block d L (b @ y # S1) R2)"
    (is "?lhs \<longleftrightarrow> ?a \<or> ?b")
  proof
    assume ?lhs
    then obtain R1 R2 where eq: "y # R = R1 @ R2" and t: "try_block d L (b @ R1) R2"
      by blast
    show "?a \<or> ?b"
    proof (cases R1)
      case Nil
      with eq t show ?thesis by simp
    next
      case (Cons z S1)
      with eq have "z = y" "R = S1 @ R2" by simp_all
      with t Cons have ?b by blast
      then show ?thesis ..
    qed
  next
    assume "?a \<or> ?b"
    then show ?lhs
    proof
      assume ?a
      then have "y # R = [] @ (y # R) \<and> try_block d L (b @ []) (y # R)" by simp
      then show ?lhs by blast
    next
      assume ?b
      then obtain S1 R2 where "R = S1 @ R2" "try_block d L (b @ y # S1) R2" by blast
      then have "y # R = (y # S1) @ R2 \<and> try_block d L (b @ (y # S1)) R2" by simp
      then show ?lhs by blast
    qed
  qed
  then show ?case
    by (simp add: Cons.IH)
qed

lemma any_split_eq:
  "any_split d L rest \<longleftrightarrow>
     (\<exists>L' b R. rest = L' @ b @ R \<and> b \<noteq> [] \<and> try_block d (L @ L') b R)"
proof (induction rest arbitrary: L)
  case Nil
  show ?case by simp
next
  case (Cons x xs)
  have "(\<exists>L' b R. x # xs = L' @ b @ R \<and> b \<noteq> [] \<and> try_block d (L @ L') b R)
      \<longleftrightarrow> (\<exists>R1 R2. xs = R1 @ R2 \<and> try_block d L (x # R1) R2)
        \<or> (\<exists>M b R. xs = M @ b @ R \<and> b \<noteq> [] \<and> try_block d (L @ x # M) b R)"
    (is "?lhs \<longleftrightarrow> ?a \<or> ?b")
  proof
    assume ?lhs
    then obtain L' b R where eq: "x # xs = L' @ b @ R" and ne: "b \<noteq> []"
      and t: "try_block d (L @ L') b R"
      by blast
    show "?a \<or> ?b"
    proof (cases L')
      case Nil
      with eq ne obtain R1 where "b = x # R1" "xs = R1 @ R"
        by (cases b) auto
      with t Nil have ?a by auto
      then show ?thesis ..
    next
      case (Cons z M)
      with eq have "z = x" "xs = M @ b @ R" by simp_all
      with t ne Cons have ?b by blast
      then show ?thesis ..
    qed
  next
    assume "?a \<or> ?b"
    then show ?lhs
    proof
      assume ?a
      then obtain R1 R2 where "xs = R1 @ R2" "try_block d L (x # R1) R2" by blast
      then have "x # xs = [] @ (x # R1) @ R2 \<and> x # R1 \<noteq> [] \<and> try_block d (L @ []) (x # R1) R2"
        by simp
      then show ?lhs by blast
    next
      assume ?b
      then obtain M b R where "xs = M @ b @ R" "b \<noteq> []" "try_block d (L @ x # M) b R" by blast
      then have "x # xs = (x # M) @ b @ R \<and> b \<noteq> [] \<and> try_block d (L @ (x # M)) b R"
        by simp
      then show ?lhs by blast
    qed
  qed
  note main = this
  have s1: "any_split d L (x # xs) \<longleftrightarrow> any_block d L [x] xs \<or> any_split d (L @ [x]) xs"
    by simp
  have s2: "any_block d L [x] xs \<longleftrightarrow> ?a"
    unfolding any_block_eq by simp
  have s3: "any_split d (L @ [x]) xs \<longleftrightarrow> ?b"
    unfolding Cons.IH by simp
  show ?case
    unfolding s1 s2 s3 main ..
qed

lemma orderable_fast_eq:
  assumes "set q \<subseteq> set suits"
  shows "orderable_fast q \<longleftrightarrow> orderable_unpruned q"
proof -
  have q: "quick (card (set q)) (u @ b @ v) \<longleftrightarrow> ordered (remdups_adj (u @ b @ v))"
    if "q = L @ b @ R" "L @ R = u @ v" for L b R u v
  proof -
    have s: "set (u @ b @ v) = set q"
      unfolding that(1) by (rule set_move[OF that(2)])
    with assms have "set (u @ b @ v) \<subseteq> set suits" by simp
    from quick_eq[OF this] show ?thesis
      unfolding s by (simp add: ordered_remdups_adj)
  qed
  have "orderable_fast q \<longleftrightarrow>
      (\<exists>L b R u v. q = L @ b @ R \<and> b \<noteq> [] \<and> L @ R = u @ v \<and> quick (card (set q)) (u @ b @ v))"
    unfolding orderable_fast_def any_split_eq try_block_eq nsyms_eq by auto
  also have "\<dots> \<longleftrightarrow>
      (\<exists>L b R u v. q = L @ b @ R \<and> b \<noteq> [] \<and> L @ R = u @ v \<and> ordered (remdups_adj (u @ b @ v)))"
    using q by blast
  also have "\<dots> \<longleftrightarrow> orderable_unpruned q"
    unfolding orderable_unpruned_def Bex_def moves_iff by blast
  finally show ?thesis .
qed

lemma orderable_fast_orderable:
  assumes "set q \<subseteq> set suits" and "length q \<le> 7"
  shows "orderable q \<longleftrightarrow> orderable_fast q"
  using assms orderable_fast_eq[OF assms(1)] by (simp add: orderable_def orderable_unpruned_def)

section \<open>The tree holds exactly the orderable sequences\<close>

lemma present_Off: "\<not> present t \<Longrightarrow> t = Off"
  by (cases t) simp_all

lemma present_child: "present (child t c) \<Longrightarrow> present t"
  by (cases t) simp_all

lemma agree_at_step:
  assumes "agree_at n t q l c" and "l \<noteq> c"
  shows "(orderable_fast (q @ [c]) \<longleftrightarrow> present (child t c)) \<and> agree n (child t c) (q @ [c]) c"
proof (cases "orderable_fast (q @ [c])")
  case True
  with assms show ?thesis by simp
next
  case False
  with assms have np: "\<not> present (child t c)" and a: "agree n Off (q @ [c]) c"
    by simp_all
  from present_Off[OF np] a False np show ?thesis by simp
qed

lemma agree_Suc:
  assumes "agree (Suc n) t q l" and "c \<in> set suits"
  shows "agree_at n t q l c"
  using assms by (auto simp: suits_def)

lemma collapsed_snoc_Cons:
  assumes "remdups_adj (q @ c # e) = q @ c # e" and "q \<noteq> []"
  shows "last q \<noteq> c"
proof
  assume "last q = c"
  with assms(2) have "remdups_adj (q @ c # e) = remdups_adj q @ tl (remdups_adj (c # e))"
    by (simp add: remdups_adj_append_if)
  then have "length (remdups_adj (q @ c # e)) = length (remdups_adj q) + (length (remdups_adj (c # e)) - 1)"
    by simp
  moreover have "length (remdups_adj q) \<le> length q"
    by (rule remdups_adj_length)
  moreover have "length (remdups_adj (c # e)) \<le> Suc (length e)"
    by (metis length_Cons remdups_adj_length)
  moreover have "length (remdups_adj (q @ c # e)) = length q + Suc (length e)"
    by (simp add: assms(1))
  ultimately show False
    by linarith
qed

lemma collapsed_prefix:
  assumes "remdups_adj (q @ e) = q @ e"
  shows "remdups_adj q = q"
proof -
  have "length (remdups_adj (q @ e)) \<le> length (remdups_adj q) + length (remdups_adj e)"
    by (rule runs_append_le)
  moreover have "length (remdups_adj (q @ e)) = length q + length e"
    by (simp add: assms)
  moreover have "length (remdups_adj e) \<le> length e"
    by (rule remdups_adj_length)
  moreover have "length (remdups_adj q) \<le> length q"
    by (rule remdups_adj_length)
  ultimately have len: "length (remdups_adj q) = length q"
    by linarith
  have "remdups_adj q @
      (if q \<noteq> [] \<and> e \<noteq> [] \<and> last q = hd e then tl (remdups_adj e) else remdups_adj e) = q @ e"
    using remdups_adj_append_if[of q e] assms by simp
  with len show ?thesis
    by (metis append_eq_append_conv)
qed

lemma agree_sound:
  assumes "agree n t q l" and "q \<noteq> []" and "l = last q" and "set q \<subseteq> set suits"
    and "e \<noteq> []" and "length e \<le> n" and "set e \<subseteq> set suits"
    and "remdups_adj (q @ e) = q @ e" and "length (q @ e) \<le> 7"
  shows "orderable (q @ e) \<longleftrightarrow> present (foldl child t e)"
  using assms
proof (induction n arbitrary: t q l e)
  case 0
  then show ?case by simp
next
  case (Suc n)
  from Suc.prems(5) obtain c e' where e: "e = c # e'" by (cases e) auto
  have c: "c \<in> set suits" and e': "set e' \<subseteq> set suits"
    using Suc.prems(7) by (simp_all add: e)
  have "last q \<noteq> c"
    using collapsed_snoc_Cons[of q c e'] Suc.prems(2,8) by (simp add: e)
  then have "l \<noteq> c"
    by (simp add: Suc.prems(3))
  from agree_at_step[OF agree_Suc[OF Suc.prems(1) c] this]
  have f: "orderable_fast (q @ [c]) \<longleftrightarrow> present (child t c)"
    and a: "agree n (child t c) (q @ [c]) c"
    by simp_all
  have qc: "set (q @ [c]) \<subseteq> set suits"
    using Suc.prems(4) c by simp
  show ?case
  proof (cases "e' = []")
    case True
    have "length (q @ [c]) \<le> 7"
      using Suc.prems(9) by (simp add: e)
    from orderable_fast_orderable[OF qc this] f show ?thesis
      by (simp add: e True)
  next
    case False
    have "orderable ((q @ [c]) @ e') \<longleftrightarrow> present (foldl child (child t c) e')"
    proof (rule Suc.IH[OF a])
      show "q @ [c] \<noteq> []" by simp
      show "c = last (q @ [c])" by simp
      show "set (q @ [c]) \<subseteq> set suits" by (rule qc)
      show "e' \<noteq> []" by (rule False)
      show "length e' \<le> n" using Suc.prems(6) by (simp add: e)
      show "set e' \<subseteq> set suits" by (rule e')
      show "remdups_adj ((q @ [c]) @ e') = (q @ [c]) @ e'"
        using Suc.prems(8) by (simp add: e)
      show "length ((q @ [c]) @ e') \<le> 7"
        using Suc.prems(9) by (simp add: e)
    qed
    then show ?thesis
      by (simp add: e)
  qed
qed

subsection \<open>Checking the tree\<close>

lemma char_eqs:
  "(CHR ''r'' = CHR ''r'') = True"
  "(CHR ''r'' = CHR ''b'') = False"
  "(CHR ''r'' = CHR ''R'') = False"
  "(CHR ''r'' = CHR ''B'') = False"
  "(CHR ''b'' = CHR ''r'') = False"
  "(CHR ''b'' = CHR ''b'') = True"
  "(CHR ''b'' = CHR ''R'') = False"
  "(CHR ''b'' = CHR ''B'') = False"
  "(CHR ''R'' = CHR ''r'') = False"
  "(CHR ''R'' = CHR ''b'') = False"
  "(CHR ''R'' = CHR ''R'') = True"
  "(CHR ''R'' = CHR ''B'') = False"
  "(CHR ''B'' = CHR ''r'') = False"
  "(CHR ''B'' = CHR ''b'') = False"
  "(CHR ''B'' = CHR ''R'') = False"
  "(CHR ''B'' = CHR ''B'') = True"
  by simp_all

lemmas fast_rules =
  orderable_fast_def any_split.simps any_block.simps try_block_def any_insert.simps quick_def
  color_ok.simps adjacent_fast.simps one_color.simps same_color_def nsyms.simps mem.simps
  runs.simps char_eqs append.simps if_True if_False simp_thms
  add_Suc add_0 Suc_le_mono le0 le_zero_eq nat.inject nat.distinct

lemmas tree_rules = child.simps present.simps

lemma agree_rb: "agree (Suc (Suc (Suc (Suc (Suc 0))))) T_rb ''rb'' (CHR ''b'')"
  unfolding T_rb_def
  by (simp only: agree.simps agree_at.simps fast_rules tree_rules cong: if_weak_cong)

lemma agree_rR: "agree (Suc (Suc (Suc (Suc (Suc 0))))) T_rR ''rR'' (CHR ''R'')"
  unfolding T_rR_def
  by (simp only: agree.simps agree_at.simps fast_rules tree_rules cong: if_weak_cong)

lemma agree_rB: "agree (Suc (Suc (Suc (Suc (Suc 0))))) T_rB ''rB'' (CHR ''B'')"
  unfolding T_rB_def
  by (simp only: agree.simps agree_at.simps fast_rules tree_rules cong: if_weak_cong)

lemma agree_br: "agree (Suc (Suc (Suc (Suc (Suc 0))))) T_br ''br'' (CHR ''r'')"
  unfolding T_br_def
  by (simp only: agree.simps agree_at.simps fast_rules tree_rules cong: if_weak_cong)

lemma agree_bR: "agree (Suc (Suc (Suc (Suc (Suc 0))))) T_bR ''bR'' (CHR ''R'')"
  unfolding T_bR_def
  by (simp only: agree.simps agree_at.simps fast_rules tree_rules cong: if_weak_cong)

lemma agree_bB: "agree (Suc (Suc (Suc (Suc (Suc 0))))) T_bB ''bB'' (CHR ''B'')"
  unfolding T_bB_def
  by (simp only: agree.simps agree_at.simps fast_rules tree_rules cong: if_weak_cong)

lemma agree_Rr: "agree (Suc (Suc (Suc (Suc (Suc 0))))) T_Rr ''Rr'' (CHR ''r'')"
  unfolding T_Rr_def
  by (simp only: agree.simps agree_at.simps fast_rules tree_rules cong: if_weak_cong)

lemma agree_Rb: "agree (Suc (Suc (Suc (Suc (Suc 0))))) T_Rb ''Rb'' (CHR ''b'')"
  unfolding T_Rb_def
  by (simp only: agree.simps agree_at.simps fast_rules tree_rules cong: if_weak_cong)

lemma agree_RB: "agree (Suc (Suc (Suc (Suc (Suc 0))))) T_RB ''RB'' (CHR ''B'')"
  unfolding T_RB_def
  by (simp only: agree.simps agree_at.simps fast_rules tree_rules cong: if_weak_cong)

lemma agree_Br: "agree (Suc (Suc (Suc (Suc (Suc 0))))) T_Br ''Br'' (CHR ''r'')"
  unfolding T_Br_def
  by (simp only: agree.simps agree_at.simps fast_rules tree_rules cong: if_weak_cong)

lemma agree_Bb: "agree (Suc (Suc (Suc (Suc (Suc 0))))) T_Bb ''Bb'' (CHR ''b'')"
  unfolding T_Bb_def
  by (simp only: agree.simps agree_at.simps fast_rules tree_rules cong: if_weak_cong)

lemma agree_BR: "agree (Suc (Suc (Suc (Suc (Suc 0))))) T_BR ''BR'' (CHR ''R'')"
  unfolding T_BR_def
  by (simp only: agree.simps agree_at.simps fast_rules tree_rules cong: if_weak_cong)

lemma present_pairs:
  "present T_rb" "present T_rR" "present T_rB" "present T_br" "present T_bR" "present T_bB" "present T_Rr" "present T_Rb" "present T_RB" "present T_Br" "present T_Bb" "present T_BR"
  by (simp_all add: T_rb_def T_rR_def T_rB_def T_br_def T_bR_def T_bB_def T_Rr_def T_Rb_def T_RB_def T_Br_def T_Bb_def T_BR_def)

lemma agree_r: "agree (Suc (Suc (Suc (Suc (Suc (Suc 0)))))) T_r ''r'' (CHR ''r'')"
  unfolding agree.simps
  by (simp only: agree_at.simps fast_rules tree_rules T_r_def present_pairs agree_rb agree_rR agree_rB
      cong: if_weak_cong)

lemma agree_b: "agree (Suc (Suc (Suc (Suc (Suc (Suc 0)))))) T_b ''b'' (CHR ''b'')"
  unfolding agree.simps
  by (simp only: agree_at.simps fast_rules tree_rules T_b_def present_pairs agree_br agree_bR agree_bB
      cong: if_weak_cong)

lemma agree_R: "agree (Suc (Suc (Suc (Suc (Suc (Suc 0)))))) T_R ''R'' (CHR ''R'')"
  unfolding agree.simps
  by (simp only: agree_at.simps fast_rules tree_rules T_R_def present_pairs agree_Rr agree_Rb agree_RB
      cong: if_weak_cong)

lemma agree_B: "agree (Suc (Suc (Suc (Suc (Suc (Suc 0)))))) T_B ''B'' (CHR ''B'')"
  unfolding agree.simps
  by (simp only: agree_at.simps fast_rules tree_rules T_B_def present_pairs agree_Br agree_Bb agree_BR
      cong: if_weak_cong)


subsection \<open>Orderable sequences are closed under prefixes\<close>

lemma child_root:
  "child root (CHR ''r'') = T_r" "child root (CHR ''b'') = T_b"
  "child root (CHR ''R'') = T_R" "child root (CHR ''B'') = T_B"
  by (simp_all add: root_def)

lemma present_singles: "present T_r" "present T_b" "present T_R" "present T_B"
  by (simp_all add: T_r_def T_b_def T_R_def T_B_def)

lemma agree_root:
  assumes "c \<in> set suits"
  shows "present (child root c) \<and> agree (Suc (Suc (Suc (Suc (Suc (Suc 0)))))) (child root c) [c] c"
proof -
  from assms consider "c = CHR ''r''" | "c = CHR ''b''" | "c = CHR ''R''" | "c = CHR ''B''"
    by (auto simp: suits_def)
  then show ?thesis
  proof cases
    case 1
    show ?thesis unfolding 1 child_root by (rule conjI[OF present_singles(1) agree_r])
  next
    case 2
    show ?thesis unfolding 2 child_root by (rule conjI[OF present_singles(2) agree_b])
  next
    case 3
    show ?thesis unfolding 3 child_root by (rule conjI[OF present_singles(3) agree_R])
  next
    case 4
    show ?thesis unfolding 4 child_root by (rule conjI[OF present_singles(4) agree_B])
  qed
qed

lemma orderable_tree:
  assumes "q \<noteq> []" and "set q \<subseteq> set suits" and "remdups_adj q = q" and "length q \<le> 7"
  shows "orderable q \<longleftrightarrow> present (foldl child root q)"
proof -
  from assms(1) obtain c e where q: "q = c # e" by (cases q) auto
  have c: "c \<in> set suits" and e: "set e \<subseteq> set suits"
    using assms(2) by (simp_all add: q)
  show ?thesis
  proof (cases "e = []")
    case True
    have "present (child root c)"
      by (rule conjunct1[OF agree_root[OF c]])
    with orderable_single[of c] show ?thesis
      by (simp add: q True)
  next
    case False
    have "orderable ([c] @ e) \<longleftrightarrow> present (foldl child (child root c) e)"
    proof (rule agree_sound)
      show "agree (Suc (Suc (Suc (Suc (Suc (Suc 0)))))) (child root c) [c] c"
        by (rule conjunct2[OF agree_root[OF c]])
      show "[c] \<noteq> []" by simp
      show "c = last [c]" by simp
      show "set [c] \<subseteq> set suits" using c by simp
      show "e \<noteq> []" by (rule False)
      show "length e \<le> Suc (Suc (Suc (Suc (Suc (Suc 0)))))"
        using assms(4) by (simp add: q)
      show "set e \<subseteq> set suits" by (rule e)
      show "remdups_adj ([c] @ e) = [c] @ e"
        using assms(3) by (simp add: q)
      show "length ([c] @ e) \<le> 7"
        using assms(4) by (simp add: q)
    qed
    then show ?thesis
      by (simp add: q)
  qed
qed

lemma orderable_prefix:
  assumes "q \<noteq> []" and "set (q @ [c]) \<subseteq> set suits" and "remdups_adj (q @ [c]) = q @ [c]"
    and "orderable (q @ [c])"
  shows "orderable q"
proof -
  have len: "length (q @ [c]) \<le> 7"
    using assms(4) by (simp add: orderable_def)
  have "present (foldl child root (q @ [c]))"
    using orderable_tree[OF _ assms(2,3) len] assms(4) by simp
  then have "present (foldl child root q)"
    by (simp add: present_child)
  moreover have "set q \<subseteq> set suits" "length q \<le> 7"
    using assms(2) len by simp_all
  moreover have "remdups_adj q = q"
    by (rule collapsed_prefix[OF assms(3)])
  ultimately show ?thesis
    using orderable_tree[OF assms(1)] by simp
qed

lemma collapse_snoc:
  assumes "s \<noteq> []"
  shows "collapse (s @ [t]) = (if last s = t then collapse s else collapse s @ [t])"
  using assms by (simp add: collapse_remdups_adj remdups_adj_append_if)

lemma unorderable_extends:
  assumes "s \<noteq> []" and "set s \<subseteq> set suits" and "t \<in> set suits" and "\<not> orderable (collapse s)"
  shows "\<not> orderable (collapse (s @ [t]))"
proof (cases "last s = t")
  case True
  with assms(1,4) show ?thesis
    by (simp add: collapse_snoc)
next
  case False
  have ne: "collapse s \<noteq> []"
    using assms(1) by (simp add: collapse_remdups_adj)
  have "set (collapse s @ [t]) \<subseteq> set suits"
    using assms(2,3) by (simp add: collapse_remdups_adj)
  moreover have "remdups_adj (collapse s @ [t]) = collapse s @ [t]"
    using collapse_snoc[OF assms(1), of t] False collapse_idem[of "s @ [t]"]
    by (simp add: collapse_remdups_adj)
  ultimately have "\<not> orderable (collapse s @ [t])"
    using orderable_prefix[OF ne, of t] assms(4) by blast
  with False assms(1) show ?thesis
    by (simp add: collapse_snoc)
qed

text \<open>
  C3, for non-empty sequences: if a non-empty collapsed sequence of suit symbols of length
  at most 7 is not orderable, then it stays so when any suit symbol is appended.
\<close>

theorem unorderable_stays_unorderable:
  assumes "s \<noteq> []" and "set s \<subseteq> set suits" and "collapse s = s" and "length s \<le> 7"
    and "\<not> orderable s"
  shows "\<forall>t\<in>set suits. \<not> orderable (collapse (s @ [t]))"
proof
  fix t
  assume "t \<in> set suits"
  from unorderable_extends[OF assms(1,2) this] assms(3,5)
  show "\<not> orderable (collapse (s @ [t]))" by simp
qed

theorem unorderable_stays_unorderable_witness:
  "''rbrbr'' \<noteq> [] \<and> set ''rbrbr'' \<subseteq> set suits \<and> collapse ''rbrbr'' = ''rbrbr''
     \<and> length ''rbrbr'' \<le> 7 \<and> \<not> orderable ''rbrbr'' \<and> CHR ''R'' \<in> set suits
     \<and> \<not> orderable (collapse (''rbrbr'' @ ''R''))"
proof -
  have h1: "''rbrbr'' \<noteq> []" by simp
  have h2: "set ''rbrbr'' \<subseteq> set suits" by (simp add: suits_def)
  have h3: "collapse ''rbrbr'' = ''rbrbr''" by (simp add: collapse_remdups_adj)
  have h4: "length ''rbrbr'' \<le> 7" by simp
  have "\<not> orderable_fast ''rbrbr''"
    by (simp only: fast_rules cong: if_weak_cong)
  then have h5: "\<not> orderable ''rbrbr''"
    using orderable_fast_orderable[OF h2 h4] by simp
  have h6: "CHR ''R'' \<in> set suits" by (simp add: suits_def)
  show ?thesis
    using h1 h2 h3 h4 h5 h6 unorderable_stays_unorderable[OF h1 h2 h3 h4 h5] by blast
qed

text \<open>
  The empty sequence is collapsed, has length 0 and is not orderable, but every single
  suit is orderable.
\<close>

theorem empty_sequence_recovers:
  "set ([] :: string) \<subseteq> set suits \<and> collapse ([] :: string) = [] \<and> length ([] :: string) \<le> 7
     \<and> \<not> orderable [] \<and> CHR ''r'' \<in> set suits \<and> orderable (collapse ([] @ [CHR ''r'']))"
proof -
  have "\<not> orderable []"
    by (simp add: orderable_def moves_Nil)
  moreover have "orderable (collapse ([] @ [CHR ''r'']))"
    using orderable_single[of "CHR ''r''"] by (simp add: collapse_remdups_adj)
  ultimately show ?thesis
    by (simp add: suits_def)
qed

section \<open>The pruned distribution\<close>

lemma keep_prefix:
  assumes "h \<noteq> []" and "set h \<subseteq> set suits" and "c \<in> set suits" and "keep_orderable (h @ [c])"
  shows "keep_orderable h"
  using unorderable_extends[OF assms(1,2,3)] assms(4) unfolding keep_orderable_def by blast

lemma extend_as_filter: "extend keep hs = filter keep (extend (\<lambda>_. True) hs)"
  by (induction hs) (simp_all add: extend_Nil extend_Cons filter_map comp_def)

lemma extend_filter_closed:
  assumes "\<forall>h\<in>set hs. \<forall>c\<in>set suits. keep (h @ [c]) \<longrightarrow> keep h"
  shows "extend keep (filter keep hs) = extend keep hs"
  using assms
proof (induction hs)
  case Nil
  show ?case by simp
next
  case (Cons h hs)
  then have IH: "extend keep (filter keep hs) = extend keep hs"
    by simp
  show ?case
  proof (cases "keep h")
    case True
    then show ?thesis
      by (simp add: extend_Cons IH)
  next
    case False
    with Cons.prems have "filter (\<lambda>s. keep (h @ [s])) suits = []"
      by (auto simp: filter_empty_conv)
    with False show ?thesis
      by (simp add: extend_Cons IH)
  qed
qed

lemma hands_pruned_filter:
  "hands keep_orderable (Suc n) = filter keep_orderable (hands (\<lambda>_. True) (Suc n))"
proof (induction n)
  case 0
  show ?case
    unfolding hands.simps by (rule extend_as_filter)
next
  case (Suc n)
  have closed: "\<forall>h\<in>set (hands (\<lambda>_. True) (Suc n)). \<forall>c\<in>set suits.
      keep_orderable (h @ [c]) \<longrightarrow> keep_orderable h"
  proof (intro ballI impI)
    fix h c
    assume h: "h \<in> set (hands (\<lambda>_. True) (Suc n))" and c: "c \<in> set suits"
      and k: "keep_orderable (h @ [c])"
    from hands_length[OF h] have "h \<noteq> []" by auto
    from keep_prefix[OF this hands_alphabet[OF h] c k] show "keep_orderable h" .
  qed
  have "hands keep_orderable (Suc (Suc n)) = extend keep_orderable (hands keep_orderable (Suc n))"
    by simp
  also have "\<dots> = extend keep_orderable (filter keep_orderable (hands (\<lambda>_. True) (Suc n)))"
    by (simp only: Suc.IH)
  also have "\<dots> = extend keep_orderable (hands (\<lambda>_. True) (Suc n))"
    by (rule extend_filter_closed[OF closed])
  also have "\<dots> = filter keep_orderable (extend (\<lambda>_. True) (hands (\<lambda>_. True) (Suc n)))"
    by (rule extend_as_filter)
  finally show ?case
    by simp
qed

lemma sum_filter_pairs:
  "sum_list [p. (hand, p) \<leftarrow> map (\<lambda>h. (h, f h)) hs, P hand] = sum_list (map f (filter P hs))"
  by (induction hs) simp_all

lemma keep_unpruned:
  assumes "set h \<subseteq> set suits"
  shows "orderable_unpruned (collapse h) = keep_orderable h"
proof -
  have "set (collapse h) \<subseteq> set suits"
    using assms by (simp add: collapse_remdups_adj)
  from orderable_eq_unpruned[OF this collapse_idem] show ?thesis
    by (simp add: keep_orderable_def)
qed

lemma pruned_sums:
  assumes "n \<le> 52"
  defines "d \<equiv> map (\<lambda>h. (h, prob h)) (hands keep_orderable (Suc n))"
    and "du \<equiv> map (\<lambda>h. (h, prob h)) (hands (\<lambda>_. True) (Suc n))"
  shows "sum_list (map snd d) = sum_list [p. (hand, p) \<leftarrow> du, orderable (collapse hand)]"
    and "sum_list (map snd d) = sum_list [p. (hand, p) \<leftarrow> du, orderable_unpruned (collapse hand)]"
proof -
  have d: "sum_list (map snd d) = sum_list (map prob (filter keep_orderable (hands (\<lambda>_. True) (Suc n))))"
    unfolding d_def hands_pruned_filter by (simp add: comp_def)
  have "filter (\<lambda>h. orderable_unpruned (collapse h)) (hands (\<lambda>_. True) (Suc n))
      = filter keep_orderable (hands (\<lambda>_. True) (Suc n))"
    by (rule filter_cong[OF refl]) (rule keep_unpruned[OF hands_alphabet])
  then show "sum_list (map snd d) = sum_list [p. (hand, p) \<leftarrow> du, orderable_unpruned (collapse hand)]"
    unfolding du_def sum_filter_pairs d by simp
  have "filter (\<lambda>h. orderable (collapse h)) (hands (\<lambda>_. True) (Suc n))
      = filter keep_orderable (hands (\<lambda>_. True) (Suc n))"
    by (rule filter_cong[OF refl]) (simp add: keep_orderable_def)
  then show "sum_list (map snd d) = sum_list [p. (hand, p) \<leftarrow> du, orderable (collapse hand)]"
    unfolding du_def sum_filter_pairs d by simp
qed

text \<open>
  C1, for \<open>N\<close> from 1 to 13: the probabilities of the pruned distribution add up to
  \<open>orderable_probability N\<close>, which is also the sum over the full distribution restricted
  to the hands whose collapsed sequence is orderable (with either definition of
  \<open>orderable\<close>), the value of the first \<open>orderable_probability\<close>.
\<close>

theorem pruned_matches_unpruned:
  assumes "1 \<le> N" and "N \<le> 13"
  shows "\<exists>d du. deals N = Some (Inr d) \<and> deals_unpruned N = Some (Inr du)
     \<and> orderable_probability N = Some (Inr (sum_list (map snd d)))
     \<and> orderable_probability_unpruned N = Some (Inr (sum_list (map snd d)))
     \<and> sum_list (map snd d) = sum_list [p. (hand, p) \<leftarrow> du, orderable (collapse hand)]"
proof -
  from assms obtain n where n: "nat N = Suc n" "n \<le> 52"
    by (cases "nat N") auto
  define d where "d = map (\<lambda>h. (h, prob h)) (hands keep_orderable (Suc n))"
  define du where "du = map (\<lambda>h. (h, prob h)) (hands (\<lambda>_. True) (Suc n))"
  have range: "0 \<le> N" "N \<le> 52"
    using assms by simp_all
  have 1: "deals N = Some (Inr d)"
    unfolding deals_in_range[OF range] d_def by (simp add: n)
  have 2: "deals_unpruned N = Some (Inr du)"
    unfolding deals_unpruned_in_range[OF range] du_def by (simp add: n)
  have 3: "orderable_probability N = Some (Inr (sum_list (map snd d)))"
    by (simp add: orderable_probability_def 1)
  have 4: "sum_list (map snd d) = sum_list [p. (hand, p) \<leftarrow> du, orderable (collapse hand)]"
    unfolding d_def du_def by (rule pruned_sums(1)[OF n(2)])
  have "sum_list (map snd d) = sum_list [p. (hand, p) \<leftarrow> du, orderable_unpruned (collapse hand)]"
    unfolding d_def du_def by (rule pruned_sums(2)[OF n(2)])
  then have 5: "orderable_probability_unpruned N = Some (Inr (sum_list (map snd d)))"
    by (simp add: orderable_probability_unpruned_def 2)
  from 1 2 3 4 5 show ?thesis by blast
qed

theorem pruned_matches_unpruned_witness:
  "(1::int) \<le> 1 \<and> (1::int) \<le> 13
   \<and> (\<exists>d du. deals 1 = Some (Inr d) \<and> deals_unpruned 1 = Some (Inr du)
     \<and> orderable_probability 1 = Some (Inr (sum_list (map snd d)))
     \<and> orderable_probability_unpruned 1 = Some (Inr (sum_list (map snd d)))
     \<and> sum_list (map snd d) = sum_list [p. (hand, p) \<leftarrow> du, orderable (collapse hand)])"
proof -
  have h1: "(1::int) \<le> 1" and h2: "(1::int) \<le> 13" by simp_all
  from pruned_matches_unpruned[OF h1 h2] h1 h2 show ?thesis by blast
qed

text \<open>
  For \<open>N = 0\<close> the two sums differ: the pruned distribution keeps the empty hand with
  probability 1, while the empty sequence is not orderable.
\<close>

theorem pruned_differs_at_0:
  "orderable_probability 0 = Some (Inr 1) \<and> orderable_probability_unpruned 0 = Some (Inr 0)"
  by (simp add: orderable_probability_def orderable_probability_unpruned_def deals.simps
      deals_unpruned.simps orderable_unpruned_def moves_Nil)

section \<open>Adding up the pruned distribution along the tree\<close>

lemma hands_from_0: "hands_from keep h 0 = [h]"
  by (simp add: hands_from_def)

lemma hands_from_Suc: "hands_from keep h (Suc n) = extend keep (hands_from keep h n)"
  by (simp add: hands_from_def)

lemma hands_hands_from: "hands keep n = hands_from keep [] n"
  by (induction n) (simp_all add: hands_from_0 hands_from_Suc)

lemma extend_append: "extend keep (xs @ ys) = extend keep xs @ extend keep ys"
  by (simp add: extend_filter)

lemma extend_concat: "extend keep (concat xss) = concat (map (extend keep) xss)"
  by (induction xss) (simp_all add: extend_Nil extend_append)

lemma extend_single:
  "extend keep [h] = map (\<lambda>s. h @ [s]) (filter (\<lambda>s. keep (h @ [s])) suits)"
  by (simp add: extend_filter)

lemma hands_from_first:
  "hands_from keep h (Suc n) = concat (map (\<lambda>h1. hands_from keep h1 n) (extend keep [h]))"
proof (induction n)
  case 0
  show ?case by (simp add: hands_from_0 hands_from_Suc)
next
  case (Suc n)
  have "hands_from keep h (Suc (Suc n)) = extend keep (hands_from keep h (Suc n))"
    by (rule hands_from_Suc)
  also have "\<dots> = concat (map (extend keep) (map (\<lambda>h1. hands_from keep h1 n) (extend keep [h])))"
    by (simp only: Suc.IH extend_concat)
  also have "\<dots> = concat (map (\<lambda>h1. hands_from keep h1 (Suc n)) (extend keep [h]))"
    by (simp add: comp_def hands_from_Suc)
  finally show ?case .
qed

lemma sum_list_map_concat:
  "sum_list (map f (concat xss)) = sum_list (map (\<lambda>xs. sum_list (map f xs)) xss)"
  by (induction xss) simp_all

lemma weight_from_first:
  "(\<Sum>x\<leftarrow>hands_from keep h (Suc n). weight x)
     = (\<Sum>c\<leftarrow>suits. if keep (h @ [c]) then (\<Sum>x\<leftarrow>hands_from keep (h @ [c]) n. weight x) else 0)"
  unfolding hands_from_first sum_list_map_concat extend_single
  by (simp add: sum_list_map_filter' comp_def)

lemma remaining_snoc:
  "remaining (h @ [c]) x = (if c = x then remaining h x - 1 else remaining h x)"
  by (simp add: remaining_def)

lemma node_snoc:
  assumes "h \<noteq> []"
  shows "node (h @ [c]) = (if last h = c then node h else child (node h) c)"
  using assms by (simp add: node_def remdups_adj_append_if)

lemma keep_node:
  assumes "h \<noteq> []" and "set h \<subseteq> set suits" and "length h \<le> 7"
  shows "keep_orderable h \<longleftrightarrow> present (node h)"
proof -
  have "length (remdups_adj h) \<le> length h"
    by (rule remdups_adj_length)
  with assms(3) have "length (remdups_adj h) \<le> 7"
    by linarith
  then have len: "length (remdups_adj h) \<le> 7" .
  have ne: "remdups_adj h \<noteq> []" and alpha: "set (remdups_adj h) \<subseteq> set suits"
    using assms(1,2) by simp_all
  show ?thesis
    unfolding keep_orderable_def node_def collapse_remdups_adj
    by (rule orderable_tree[OF ne alpha remdups_adj_idem len])
qed

lemma walk_hand_0: "walk_hand 0 h = weight h"
  by (simp add: walk_hand_def)

lemma walk_at_hand:
  assumes "h \<noteq> []" and "set (h @ [c]) \<subseteq> set suits" and "length (h @ [c]) \<le> 7"
    and "present (node h)"
  shows "walk_at n (node h) (last h) c (remaining (h @ [c]) (CHR ''r''))
      (remaining (h @ [c]) (CHR ''b'')) (remaining (h @ [c]) (CHR ''R''))
      (remaining (h @ [c]) (CHR ''B'')) (weight (h @ [c]))
    = (if keep_orderable (h @ [c]) then walk_hand n (h @ [c]) else 0)"
proof -
  have k: "keep_orderable (h @ [c]) \<longleftrightarrow> present (node (h @ [c]))"
    by (rule keep_node[OF _ assms(2,3)]) simp
  show ?thesis
  proof (cases "last h = c")
    case True
    then have "node (h @ [c]) = node h"
      by (simp add: node_snoc[OF assms(1)])
    with True assms(4) k show ?thesis
      by (simp add: walk_hand_def)
  next
    case False
    then have "node (h @ [c]) = child (node h) c"
      by (simp add: node_snoc[OF assms(1)])
    with False k show ?thesis
      by (simp add: walk_hand_def)
  qed
qed

lemma sum_suits:
  "(\<Sum>c\<leftarrow>suits. f c) = f (CHR ''r'') + f (CHR ''b'') + f (CHR ''R'') + (f (CHR ''B'') :: int)"
  by (simp add: suits_def)

lemma suit_mem:
  "CHR ''r'' \<in> set suits" "CHR ''b'' \<in> set suits" "CHR ''R'' \<in> set suits" "CHR ''B'' \<in> set suits"
  by (simp_all add: suits_def)

lemma walk_hand_Suc:
  assumes "h \<noteq> []" and "set h \<subseteq> set suits" and "Suc (length h) \<le> 7" and "present (node h)"
  shows "walk_hand (Suc n) h
     = (\<Sum>c\<leftarrow>suits. if keep_orderable (h @ [c]) then walk_hand n (h @ [c]) else 0)"
proof -
  have at: "walk_at n (node h) (last h) c (remaining (h @ [c]) (CHR ''r''))
      (remaining (h @ [c]) (CHR ''b'')) (remaining (h @ [c]) (CHR ''R''))
      (remaining (h @ [c]) (CHR ''B'')) (weight (h @ [c]))
    = (if keep_orderable (h @ [c]) then walk_hand n (h @ [c]) else 0)"
    if "c \<in> set suits" for c
    by (rule walk_at_hand[OF assms(1) _ _ assms(4)]) (use that assms(2,3) in simp_all)
  have "walk_hand (Suc n) h =
      walk_at n (node h) (last h) (CHR ''r'') (remaining (h @ ''r'') (CHR ''r''))
        (remaining (h @ ''r'') (CHR ''b'')) (remaining (h @ ''r'') (CHR ''R''))
        (remaining (h @ ''r'') (CHR ''B'')) (weight (h @ ''r''))
      + walk_at n (node h) (last h) (CHR ''b'') (remaining (h @ ''b'') (CHR ''r''))
        (remaining (h @ ''b'') (CHR ''b'')) (remaining (h @ ''b'') (CHR ''R''))
        (remaining (h @ ''b'') (CHR ''B'')) (weight (h @ ''b''))
      + walk_at n (node h) (last h) (CHR ''R'') (remaining (h @ ''R'') (CHR ''r''))
        (remaining (h @ ''R'') (CHR ''b'')) (remaining (h @ ''R'') (CHR ''R''))
        (remaining (h @ ''R'') (CHR ''B'')) (weight (h @ ''R''))
      + walk_at n (node h) (last h) (CHR ''B'') (remaining (h @ ''B'') (CHR ''r''))
        (remaining (h @ ''B'') (CHR ''b'')) (remaining (h @ ''B'') (CHR ''R''))
        (remaining (h @ ''B'') (CHR ''B'')) (weight (h @ ''B''))"
    unfolding walk_hand_def walk.simps remaining_snoc weight_snoc
    by (simp add: remaining_def)
  also have "\<dots> =
      (if keep_orderable (h @ ''r'') then walk_hand n (h @ ''r'') else 0)
      + (if keep_orderable (h @ ''b'') then walk_hand n (h @ ''b'') else 0)
      + (if keep_orderable (h @ ''R'') then walk_hand n (h @ ''R'') else 0)
      + (if keep_orderable (h @ ''B'') then walk_hand n (h @ ''B'') else 0)"
    by (simp only: at[OF suit_mem(1)] at[OF suit_mem(2)] at[OF suit_mem(3)] at[OF suit_mem(4)])
  also have "\<dots> = (\<Sum>c\<leftarrow>suits. if keep_orderable (h @ [c]) then walk_hand n (h @ [c]) else 0)"
    by (simp only: sum_suits)
  finally show ?thesis .
qed

lemma walk_hand_correct:
  assumes "h \<noteq> []" and "set h \<subseteq> set suits" and "length h + n \<le> 7" and "present (node h)"
  shows "walk_hand n h = (\<Sum>x\<leftarrow>hands_from keep_orderable h n. weight x)"
  using assms
proof (induction n arbitrary: h)
  case 0
  show ?case by (simp add: walk_hand_0 hands_from_0)
next
  case (Suc n)
  have len: "Suc (length h) \<le> 7"
    using Suc.prems(3) by simp
  have step: "(if keep_orderable (h @ [c]) then walk_hand n (h @ [c]) else 0)
      = (if keep_orderable (h @ [c]) then (\<Sum>x\<leftarrow>hands_from keep_orderable (h @ [c]) n. weight x) else 0)"
    if c: "c \<in> set suits" for c
  proof (cases "keep_orderable (h @ [c])")
    case True
    have a: "set (h @ [c]) \<subseteq> set suits"
      using Suc.prems(2) c by simp
    have b: "length (h @ [c]) \<le> 7"
      using len by simp
    have "present (node (h @ [c]))"
      using keep_node[OF _ a b] True by simp
    moreover have "length (h @ [c]) + n \<le> 7"
      using Suc.prems(3) by simp
    ultimately have "walk_hand n (h @ [c]) = (\<Sum>x\<leftarrow>hands_from keep_orderable (h @ [c]) n. weight x)"
      using Suc.IH[of "h @ [c]"] a by simp
    then show ?thesis by simp
  next
    case False
    then show ?thesis by simp
  qed
  have "walk_hand (Suc n) h
      = (\<Sum>c\<leftarrow>suits. if keep_orderable (h @ [c]) then walk_hand n (h @ [c]) else 0)"
    by (rule walk_hand_Suc[OF Suc.prems(1,2) len Suc.prems(4)])
  also have "\<dots> = (\<Sum>c\<leftarrow>suits. if keep_orderable (h @ [c])
      then (\<Sum>x\<leftarrow>hands_from keep_orderable (h @ [c]) n. weight x) else 0)"
    by (rule arg_cong[where f = sum_list], rule map_cong[OF refl]) (rule step)
  also have "\<dots> = (\<Sum>x\<leftarrow>hands_from keep_orderable h (Suc n). weight x)"
    by (rule weight_from_first[symmetric])
  finally show ?case .
qed

lemma walk_single:
  assumes "c \<in> set suits" and "n \<le> 6"
  shows "walk_hand n [c] = (\<Sum>x\<leftarrow>hands_from keep_orderable [c] n. weight x)"
proof (rule walk_hand_correct)
  show "[c] \<noteq> []" by simp
  show "set [c] \<subseteq> set suits" using assms(1) by simp
  show "length [c] + n \<le> 7" using assms(2) by simp
  show "present (node [c])"
    using conjunct1[OF agree_root[OF assms(1)]] by (simp add: node_def)
qed

lemma total_eq:
  "total n = walk_hand n ''r'' + walk_hand n ''b'' + walk_hand n ''R'' + walk_hand n ''B''"
  by (simp add: total_def walk_hand_def node_def child_root remaining_def weight_def)

lemma weight_hands_pruned:
  assumes "n \<le> 6"
  shows "(\<Sum>x\<leftarrow>hands keep_orderable (Suc n). weight x) = total n"
proof -
  have k: "keep_orderable [c]" for c
    by (rule keep_orderable_single)
  have "(\<Sum>x\<leftarrow>hands keep_orderable (Suc n). weight x)
      = (\<Sum>c\<leftarrow>suits. if keep_orderable ([] @ [c])
          then (\<Sum>x\<leftarrow>hands_from keep_orderable ([] @ [c]) n. weight x) else 0)"
    unfolding hands_hands_from by (rule weight_from_first)
  also have "\<dots> = (\<Sum>c\<leftarrow>suits. walk_hand n [c])"
    by (rule arg_cong[where f = sum_list], rule map_cong[OF refl])
      (simp add: k walk_single[OF _ assms])
  also have "\<dots> = total n"
    by (simp add: total_eq suits_def)
  finally show ?thesis .
qed

lemma orderable_probability_total:
  assumes "n \<le> 6"
  shows "orderable_probability (int (Suc n))
     = Some (Inr (of_int (total n) / of_int (deck_prod (Suc n))))"
proof -
  have "Suc n \<le> 52"
    using assms by simp
  from run_explicit[OF this, of keep_orderable]
  have "orderable_probability (int (Suc n))
      = Some (Inr (\<Sum>h\<leftarrow>hands keep_orderable (Suc n). prob h))"
    unfolding orderable_probability_def deals_run
    by (simp add: comp_def del: hands.simps of_nat_Suc)
  then show ?thesis
    by (simp only: sum_prob_hands weight_hands_pruned[OF assms])
qed

subsection \<open>The sums for hands of up to six cards\<close>

lemmas tree_defs = T_rb_def T_rR_def T_rB_def T_br_def T_bR_def T_bB_def T_Rr_def T_Rb_def T_RB_def T_Br_def T_Bb_def T_BR_def T_r_def T_b_def T_R_def T_B_def

lemmas walk_rules = walk.simps walk_at.simps tree_rules char_eqs if_True if_False

lemma total_0: "total 0 = 52"
  by (simp add: total_def)

lemma total_1: "total (Suc 0) = 2652"
  unfolding total_def tree_defs
  by (simp only: walk_rules cong: if_weak_cong; simp)

lemma total_2: "total (Suc (Suc 0)) = 132600"
  unfolding total_def tree_defs
  by (simp only: walk_rules cong: if_weak_cong; simp)

lemma total_3: "total (Suc (Suc (Suc 0))) = 6497400"
  unfolding total_def tree_defs
  by (simp only: walk_rules cong: if_weak_cong; simp)

lemma total_4: "total (Suc (Suc (Suc (Suc 0)))) = 265847712"
  unfolding total_def tree_defs
  by (simp only: walk_rules cong: if_weak_cong; simp)

lemma total_5: "total (Suc (Suc (Suc (Suc (Suc 0))))) = 8925221760"
  unfolding total_def tree_defs
  by (simp only: walk_rules cong: if_weak_cong; simp)

text \<open>
  C5: \<open>orderable_probability\<close> is exactly 1 for \<open>N\<close> from 1 to 4, exactly
  \<open>213019/249900\<close> for \<open>N = 5\<close> and exactly \<open>51083/83895\<close> for \<open>N = 6\<close>.
\<close>

theorem orderable_probability_values:
  "orderable_probability 1 = Some (Inr 1) \<and> orderable_probability 2 = Some (Inr 1)
   \<and> orderable_probability 3 = Some (Inr 1) \<and> orderable_probability 4 = Some (Inr 1)
   \<and> orderable_probability 5 = Some (Inr (213019 / 249900))
   \<and> orderable_probability 6 = Some (Inr (51083 / 83895))"
proof -
  have 1: "orderable_probability 1 = Some (Inr 1)"
    using orderable_probability_total[of 0] by (simp add: total_0)
  have 2: "orderable_probability 2 = Some (Inr 1)"
    using orderable_probability_total[of "Suc 0"] by (simp add: total_1)
  have 3: "orderable_probability 3 = Some (Inr 1)"
    using orderable_probability_total[of "Suc (Suc 0)"] by (simp add: total_2)
  have 4: "orderable_probability 4 = Some (Inr 1)"
    using orderable_probability_total[of "Suc (Suc (Suc 0))"] by (simp add: total_3)
  have 5: "orderable_probability 5 = Some (Inr (213019 / 249900))"
    using orderable_probability_total[of "Suc (Suc (Suc (Suc 0)))"] by (simp add: total_4)
  have 6: "orderable_probability 6 = Some (Inr (51083 / 83895))"
    using orderable_probability_total[of "Suc (Suc (Suc (Suc (Suc 0))))"] by (simp add: total_5)
  from 1 2 3 4 5 6 show ?thesis by blast
qed

end
